theory Spec2Isabelle
  imports Main "HOL-Library.Multiset"
begin

section \<open>The durable store\<close>

text \<open>
  The three tables of \<^verbatim>\<open>initDB\<close> in \<^verbatim>\<open>main.go\<close>. Text columns are strings, integer
  columns (unix seconds, counters) are integers, a nullable column is an option. The
  status columns are text in the source and stay strings here, compared with the
  literals the source writes. A table is the list of its rows in insertion order.
  The rows the program writes never hold NULL in a scanned column, and the row types
  here cannot hold one, so the \<^verbatim>\<open>rows.Scan\<close> error branches have no input.

  A statement whose error the source checks takes a flag that says whether the store
  executes it, and the model has the branch the source takes on the error. A statement
  whose result and error the source discards (\<^verbatim>\<open>_, _ = db.Exec(...)\<close>,
  \<^verbatim>\<open>_ = db.QueryRow(...).Scan(...)\<close>) takes such a flag too: when the store refuses
  it, an update leaves the store as it was and a count leaves the variable it is scanned
  into at zero, and the program goes on. The clock readings and the ids drawn by
  \<^verbatim>\<open>uuid.New()\<close> are arguments.
\<close>

text \<open>
  The value of an integer column that is added to: a 64-bit integer, or, once an
  addition has left that range, a floating-point value, which is not followed further.
\<close>

datatype sql_number = SqlInteger int | SqlReal

definition sql_succ :: "sql_number \<Rightarrow> sql_number" where
  "sql_succ a =
     (case a of
        SqlInteger n \<Rightarrow> if n < 2 ^ 63 - 1 then SqlInteger (n + 1) else SqlReal
      | SqlReal \<Rightarrow> SqlReal)"

record subscriber =
  sub_id :: string
  sub_email :: string
  sub_created_at :: int

record job =
  job_id :: string
  job_subject :: string
  job_body :: string
  job_scheduled_at :: int
  job_status :: string
  job_created_at :: int
  job_completed_at :: "int option"

record send =
  send_id :: string
  send_job_id :: string
  send_subscriber_id :: string
  send_email :: string
  send_status :: string
  send_attempts :: sql_number
  send_last_error :: "string option"
  send_created_at :: int
  send_sent_at :: "int option"

record store =
  subscribers :: "subscriber list"
  jobs :: "job list"
  sends :: "send list"

record SendTask =
  SendID :: string
  JobID :: string
  Email :: string
  Subject :: string
  Body :: string

text \<open>
  A statement whose error the source discards: the store after it, given whether the
  store executes it.
\<close>

definition discarded :: "bool \<Rightarrow> (store \<Rightarrow> store) \<Rightarrow> store \<Rightarrow> store" where
  "discarded ok stmt d = (if ok then stmt d else d)"

definition workerCount :: nat where
  "workerCount = 4"

definition taskQueueSize :: nat where
  "taskQueueSize = 1000"

section \<open>The scheduler tick\<close>

text \<open>
  \<^verbatim>\<open>SELECT id,subject,body FROM jobs WHERE status = 'pending' AND scheduled_at <= now\<close>
\<close>

definition select_due :: "int \<Rightarrow> store \<Rightarrow> (string \<times> string \<times> string) list" where
  "select_due now d =
     map (\<lambda>j. (job_id j, job_subject j, job_body j))
       (filter (\<lambda>j. job_status j = ''pending'' \<and> job_scheduled_at j \<le> now) (jobs d))"

text \<open>
  \<^verbatim>\<open>UPDATE jobs SET status = 'running' WHERE id = ?\<close>: the new store and the number of
  rows the statement affected (the source discards the count).
\<close>

definition mark_running :: "string \<Rightarrow> store \<Rightarrow> store \<times> nat" where
  "mark_running jid d =
     (d\<lparr>jobs := map (\<lambda>j. if job_id j = jid then j\<lparr>job_status := ''running''\<rparr> else j) (jobs d)\<rparr>,
      length (filter (\<lambda>j. job_id j = jid) (jobs d)))"

text \<open>
  The loop over the rows of the query. \<open>failing\<close> lists the job ids whose update the
  store refuses with an error on this tick: the source logs it and goes on to the next
  row without dispatching. The result is the store after the tick and the
  \<^verbatim>\<open>dispatchJob\<close> calls started, in order.
\<close>

fun claim_rows :: "string list \<Rightarrow> (string \<times> string \<times> string) list \<Rightarrow> store \<Rightarrow>
    (string \<times> string \<times> string) list \<Rightarrow> store \<times> (string \<times> string \<times> string) list" where
  "claim_rows failing [] d started = (d, started)"
| "claim_rows failing ((jid, subject, body) # rows) d started =
     (if jid \<in> set failing then claim_rows failing rows d started
      else claim_rows failing rows (fst (mark_running jid d)) (started @ [(jid, subject, body)]))"

text \<open>
  \<^verbatim>\<open>enqueueDueJobs\<close>: \<open>query_ok\<close> is whether the query succeeds; when it does not, the
  tick returns at once.
\<close>

definition enqueueDueJobs :: "int \<Rightarrow> bool \<Rightarrow> string list \<Rightarrow> store \<Rightarrow>
    store \<times> (string \<times> string \<times> string) list" where
  "enqueueDueJobs now query_ok failing d =
     (if \<not> query_ok then (d, []) else claim_rows failing (select_due now d) d [])"

text \<open>
  The ticks of the scheduler one after the other, each with its clock reading and the
  answers of the store, when nothing else writes to the jobs table in between.
\<close>

fun run_ticks :: "(int \<times> bool \<times> string list) list \<Rightarrow> store \<Rightarrow> store" where
  "run_ticks [] d = d"
| "run_ticks ((now, query_ok, failing) # ticks) d =
     run_ticks ticks (fst (enqueueDueJobs now query_ok failing d))"

section \<open>The dispatcher\<close>

text \<open>\<^verbatim>\<open>SELECT id,email FROM subscribers\<close>\<close>

definition select_subscribers :: "store \<Rightarrow> (string \<times> string) list" where
  "select_subscribers d = map (\<lambda>s. (sub_id s, sub_email s)) (subscribers d)"

text \<open>
  \<^verbatim>\<open>INSERT INTO sends(id,job_id,subscriber_id,email,status,created_at,attempts)
  VALUES(?,?,?,?,'queued',?,0)\<close>. The insert fails when the store refuses it
  (\<open>ok\<close> is false) or when the id, the primary key, is already in the table.
\<close>

definition insert_send :: "bool \<Rightarrow> string \<Rightarrow> string \<Rightarrow> string \<Rightarrow> string \<Rightarrow> int \<Rightarrow> store \<Rightarrow>
    store option" where
  "insert_send ok sendID jobID sid email now d =
     (if \<not> ok \<or> sendID \<in> set (map send_id (sends d)) then None
      else Some (d\<lparr>sends := sends d @
        [\<lparr>send_id = sendID, send_job_id = jobID, send_subscriber_id = sid, send_email = email,
          send_status = ''queued'', send_attempts = SqlInteger 0, send_last_error = None,
          send_created_at = now, send_sent_at = None\<rparr>]\<rparr>))"

text \<open>\<^verbatim>\<open>UPDATE jobs SET status = ?, completed_at = ? WHERE id = ?\<close>\<close>

definition set_job_status :: "string \<Rightarrow> int \<Rightarrow> string \<Rightarrow> store \<Rightarrow> store" where
  "set_job_status st now jid d =
     d\<lparr>jobs := map (\<lambda>j. if job_id j = jid
                          then j\<lparr>job_status := st, job_completed_at := Some now\<rparr> else j) (jobs d)\<rparr>"

text \<open>
  \<^verbatim>\<open>SELECT COUNT(1) FROM sends WHERE job_id = ? AND status IN ('queued','sending')\<close> and
  \<^verbatim>\<open>SELECT COUNT(1) FROM sends WHERE job_id = ? AND status = 'failed'\<close>
\<close>

definition count_remaining :: "string \<Rightarrow> store \<Rightarrow> nat" where
  "count_remaining jid d =
     length (filter (\<lambda>s. send_job_id s = jid \<and>
                          (send_status s = ''queued'' \<or> send_status s = ''sending'')) (sends d))"

definition count_failed :: "string \<Rightarrow> store \<Rightarrow> nat" where
  "count_failed jid d =
     length (filter (\<lambda>s. send_job_id s = jid \<and> send_status s = ''failed'') (sends d))"

text \<open>
  The loop of \<^verbatim>\<open>dispatchJob\<close> over the subscriber rows. \<open>gen i\<close> gives, for the
  \<open>i\<close>-th row, the id drawn by \<^verbatim>\<open>uuid.New()\<close>, the clock reading and whether the store
  accepts the insert. A row whose insert fails is skipped and gets no task.
\<close>

fun insert_sends :: "(nat \<Rightarrow> string \<times> int \<times> bool) \<Rightarrow> nat \<Rightarrow> string \<Rightarrow> string \<Rightarrow> string \<Rightarrow>
    (string \<times> string) list \<Rightarrow> store \<Rightarrow> SendTask list \<Rightarrow> store \<times> SendTask list" where
  "insert_sends gen i jobID subject body [] d tasks = (d, tasks)"
| "insert_sends gen i jobID subject body ((sid, email) # rows) d tasks =
     (case gen i of (sendID, now, ok) \<Rightarrow>
        (case insert_send ok sendID jobID sid email now d of
           None \<Rightarrow> insert_sends gen (Suc i) jobID subject body rows d tasks
         | Some d' \<Rightarrow> insert_sends gen (Suc i) jobID subject body rows d'
             (tasks @ [\<lparr>SendID = sendID, JobID = jobID, Email = email,
                        Subject = subject, Body = body\<rparr>])))"

text \<open>
  The polling loop, run while no other goroutine writes to the store. \<open>polls k\<close> is
  whether the store executes the \<open>k\<close>-th count. The variable \<^verbatim>\<open>remaining\<close> is
  declared inside the loop and the error of the count is discarded, so a refused count
  leaves it at zero and ends the wait; an executed count ends it when no send of the
  job is queued or sending; otherwise the loop sleeps and polls again, for ever if
  need be.
\<close>

partial_function (option) wait_for_sends :: "(nat \<Rightarrow> bool) \<Rightarrow> nat \<Rightarrow> string \<Rightarrow> store \<Rightarrow>
    unit option" where
  "wait_for_sends polls k jid d =
     (if (if polls k then count_remaining jid d else 0) = 0 then Some ()
      else wait_for_sends polls (Suc k) jid d)"

text \<open>
  The last step of \<^verbatim>\<open>dispatchJob\<close>, after the polling loop: the count of the failed
  sends (zero when the store refuses the count) and the update it chooses.
\<close>

definition finalize :: "bool \<Rightarrow> bool \<Rightarrow> int \<Rightarrow> string \<Rightarrow> store \<Rightarrow> store" where
  "finalize count_ok upd_ok now jid d =
     (let failed = (if count_ok then count_failed jid d else 0)
      in if failed > 0
         then discarded upd_ok (set_job_status ''completed_with_errors'' now jid) d
         else discarded upd_ok (set_job_status ''completed'' now jid) d)"

text \<open>
  \<^verbatim>\<open>dispatchJob\<close> run on its own, with the store \<open>d\<close> and the task queue \<open>q\<close>:
  \<open>subs_ok\<close> is whether the subscriber query succeeds, \<open>polls\<close> and \<open>count_ok\<close>
  whether the counts are executed, \<open>upd_ok\<close> whether the one update of the job is.
  The submission of a task blocks while the queue holds \<open>taskQueueSize\<close> tasks, and
  nothing is taken from the queue here, so a run with tasks returns only when all of
  them fit. The result is \<open>None\<close> when the run does not return.
\<close>

definition dispatchJob :: "bool \<Rightarrow> (nat \<Rightarrow> string \<times> int \<times> bool) \<Rightarrow> (nat \<Rightarrow> bool) \<Rightarrow> bool \<Rightarrow> bool \<Rightarrow>
    int \<Rightarrow> string \<Rightarrow> string \<Rightarrow> string \<Rightarrow> store \<Rightarrow> SendTask list \<Rightarrow>
    (store \<times> SendTask list) option" where
  "dispatchJob subs_ok gen polls count_ok upd_ok now jobID subject body d q =
     (if \<not> subs_ok then Some (discarded upd_ok (set_job_status ''failed'' now jobID) d, q)
      else case insert_sends gen 0 jobID subject body (select_subscribers d) d [] of
        (d1, tasks) \<Rightarrow>
          if tasks \<noteq> [] \<and> length q + length tasks > taskQueueSize then None
          else (case wait_for_sends polls 0 jobID d1 of
                  None \<Rightarrow> None
                | Some _ \<Rightarrow> Some (finalize count_ok upd_ok now jobID d1, q @ tasks)))"

section \<open>The workers\<close>

text \<open>\<^verbatim>\<open>UPDATE sends SET status = 'sending', attempts = attempts+1 WHERE id = ?\<close>\<close>

definition mark_sending :: "string \<Rightarrow> store \<Rightarrow> store" where
  "mark_sending sid d =
     d\<lparr>sends := map (\<lambda>s. if send_id s = sid
                           then s\<lparr>send_status := ''sending'',
                                  send_attempts := sql_succ (send_attempts s)\<rparr>
                           else s) (sends d)\<rparr>"

text \<open>\<^verbatim>\<open>UPDATE sends SET status = 'failed', last_error = ? WHERE id = ?\<close>\<close>

definition mark_failed :: "string \<Rightarrow> string \<Rightarrow> store \<Rightarrow> store" where
  "mark_failed e sid d =
     d\<lparr>sends := map (\<lambda>s. if send_id s = sid
                           then s\<lparr>send_status := ''failed'', send_last_error := Some e\<rparr>
                           else s) (sends d)\<rparr>"

text \<open>\<^verbatim>\<open>UPDATE sends SET status = 'sent', sent_at = ? WHERE id = ?\<close>\<close>

definition mark_sent :: "int \<Rightarrow> string \<Rightarrow> store \<Rightarrow> store" where
  "mark_sent now sid d =
     d\<lparr>sends := map (\<lambda>s. if send_id s = sid
                           then s\<lparr>send_status := ''sent'', send_sent_at := Some now\<rparr>
                           else s) (sends d)\<rparr>"

definition defaultSMTPPort :: string where
  "defaultSMTPPort = ''587''"

definition CRLF :: string where
  "CRLF = [CHR 0x0D, CHR 0x0A]"

definition buildMessage :: "string \<Rightarrow> string \<Rightarrow> string \<Rightarrow> string \<Rightarrow> string" where
  "buildMessage from to subject body =
     ''From: '' @ from @ CRLF @
     ''To: '' @ to @ CRLF @
     ''Subject: '' @ subject @ CRLF @
     ''MIME-Version: 1.0'' @ CRLF @
     ''Content-Type: text/plain; charset='' @ [CHR 0x22] @ ''utf-8'' @ [CHR 0x22] @ CRLF @
     CRLF @
     body"

text \<open>
  \<^verbatim>\<open>doSend\<close>. \<open>getenv\<close> reads the environment (the empty string for an unset
  variable). \<open>SendMail\<close> stands for \<^verbatim>\<open>smtp.SendMail\<close> with plain authentication:
  given the address, the user, password and host of the authentication, the sender, the
  recipients and the message, it acts on the world outside the program, of which the
  model knows nothing, and returns \<open>None\<close> or the text of the error, and the world
  after the call. Without \<^verbatim>\<open>SMTP_HOST\<close> the send is mocked: it succeeds and the mail
  system is not called.
\<close>

definition doSend :: "(string \<Rightarrow> string) \<Rightarrow>
    (string \<Rightarrow> string \<times> string \<times> string \<Rightarrow> string \<Rightarrow> string list \<Rightarrow> string \<Rightarrow> 'w \<Rightarrow>
      string option \<times> 'w) \<Rightarrow>
    SendTask \<Rightarrow> 'w \<Rightarrow> string option \<times> 'w" where
  "doSend getenv SendMail t w =
     (let smtpHost = getenv ''SMTP_HOST'';
          smtpPort = getenv ''SMTP_PORT'';
          smtpUser = getenv ''SMTP_USER'';
          smtpPass = getenv ''SMTP_PASS'';
          from = (if getenv ''SMTP_FROM'' = '''' then ''no-reply@example.com''
                  else getenv ''SMTP_FROM'')
      in if smtpHost = '''' then (None, w)
         else let port = (if smtpPort = '''' then defaultSMTPPort else smtpPort);
                  addr = smtpHost @ '':'' @ port;
                  msg = buildMessage from (Email t) (Subject t) (Body t)
              in SendMail addr (smtpUser, smtpPass, smtpHost) from [Email t] msg w)"

text \<open>
  The body of the loop of \<^verbatim>\<open>worker\<close> for one task: the update before the send, the
  send, the update after it. \<open>ok1\<close> and \<open>ok2\<close> are whether the store executes the
  two updates, whose errors the source discards. \<open>send\<close> is the send collaborator
  (\<open>doSend\<close> with its environment): it is given the task, the store as it is at the
  moment of the call and the world outside the program, and returns its outcome and
  the world after the call; so each call, and the moment of it, shows in the result.
\<close>

definition worker_begin :: "bool \<Rightarrow> SendTask \<Rightarrow> store \<Rightarrow> store" where
  "worker_begin ok1 t d = discarded ok1 (mark_sending (SendID t)) d"

definition worker_end :: "bool \<Rightarrow> int \<Rightarrow> SendTask \<Rightarrow> string option \<Rightarrow> store \<Rightarrow> store" where
  "worker_end ok2 now t err d =
     (case err of Some e \<Rightarrow> discarded ok2 (mark_failed e (SendID t)) d
                | None \<Rightarrow> discarded ok2 (mark_sent now (SendID t)) d)"

definition worker_task :: "(SendTask \<Rightarrow> store \<Rightarrow> 'w \<Rightarrow> string option \<times> 'w) \<Rightarrow> int \<Rightarrow> bool \<Rightarrow> bool \<Rightarrow>
    SendTask \<Rightarrow> store \<times> 'w \<Rightarrow> store \<times> 'w" where
  "worker_task send now ok1 ok2 t dw =
     (let d1 = worker_begin ok1 t (fst dw);
          r = send t d1 (snd dw)
      in (worker_end ok2 now t (fst r) d1, snd r))"

text \<open>
  \<^verbatim>\<open>worker\<close> on the tasks it receives from the queue, each with the clock reading of
  its turn and the store's answers to its two updates.
\<close>

fun worker :: "(SendTask \<Rightarrow> store \<Rightarrow> 'w \<Rightarrow> string option \<times> 'w) \<Rightarrow>
    (SendTask \<times> int \<times> bool \<times> bool) list \<Rightarrow> store \<times> 'w \<Rightarrow> store \<times> 'w" where
  "worker send [] dw = dw"
| "worker send ((t, now, ok1, ok2) # ts) dw = worker send ts (worker_task send now ok1 ok2 t dw)"

section \<open>The job-enqueue handler\<close>

record JobReq =
  req_subject :: string
  req_body :: string
  req_scheduled_at :: string

datatype http_response = JSON_OK string int | HTTP_Error nat string

text \<open>
  \<^verbatim>\<open>strconv.ParseInt(s, 10, 64)\<close>: an optional sign, then at least one decimal digit
  and nothing else, and a value that fits a signed 64-bit integer; \<open>None\<close> is any
  error.
\<close>

fun parse_digits :: "string \<Rightarrow> nat \<Rightarrow> nat option" where
  "parse_digits [] acc = Some acc"
| "parse_digits (c # cs) acc =
     (if c \<in> set ''0123456789'' then parse_digits cs (acc * 10 + (of_char c - 48)) else None)"

definition ParseInt :: "string \<Rightarrow> int option" where
  "ParseInt s =
     (if s = [] then None
      else let neg = (hd s = CHR ''-'');
               digits = (if hd s = CHR ''+'' \<or> hd s = CHR ''-'' then tl s else s)
           in if digits = [] then None
              else (case parse_digits digits 0 of
                      None \<Rightarrow> None
                    | Some un \<Rightarrow>
                        if \<not> neg \<and> un \<ge> 2 ^ 63 then None
                        else if neg \<and> un > 2 ^ 63 then None
                        else Some (if neg then - int un else int un)))"

text \<open>
  \<^verbatim>\<open>INSERT INTO jobs(id,subject,body,scheduled_at,status,created_at) VALUES(?,?,?,?,?,?)\<close>.
  The insert fails when the store refuses it or the id is already in the table.
\<close>

definition insert_job :: "bool \<Rightarrow> job \<Rightarrow> store \<Rightarrow> store option" where
  "insert_job ok j d =
     (if \<not> ok \<or> job_id j \<in> set (map job_id (jobs d)) then None
      else Some (d\<lparr>jobs := jobs d @ [j]\<rparr>))"

text \<open>
  The three forms of \<^verbatim>\<open>scheduled_at\<close>, in the order the handler tries them.
  \<open>ParseRFC3339 s\<close> stands for \<^verbatim>\<open>time.Parse(time.RFC3339, s)\<close> followed by
  \<^verbatim>\<open>Unix()\<close>.
\<close>

definition scheduled_ts :: "(string \<Rightarrow> int option) \<Rightarrow> int \<Rightarrow> string \<Rightarrow> int option" where
  "scheduled_ts ParseRFC3339 now s =
     (if s = '''' then Some now
      else case ParseRFC3339 s of
             Some t \<Rightarrow> Some t
           | None \<Rightarrow> (case ParseInt s of Some i \<Rightarrow> Some i | None \<Rightarrow> None))"

text \<open>
  \<^verbatim>\<open>scheduleJobHandler\<close>. \<open>decoded\<close> is the result of decoding the request body as JSON
  into a \<open>JobReq\<close> (\<open>None\<close> when decoding fails), \<open>TrimSpace\<close> is
  \<^verbatim>\<open>strings.TrimSpace\<close>, \<open>now_ts\<close> and \<open>now_created\<close> are the two clock readings,
  \<open>new_id\<close> is the id drawn by \<^verbatim>\<open>uuid.New()\<close> and \<open>exec_ok\<close> is whether the store
  accepts the insert. The result is the response and the store.
\<close>

definition scheduleJobHandler :: "(string \<Rightarrow> string) \<Rightarrow> (string \<Rightarrow> int option) \<Rightarrow> JobReq option \<Rightarrow>
    int \<Rightarrow> string \<Rightarrow> int \<Rightarrow> bool \<Rightarrow> store \<Rightarrow> http_response \<times> store" where
  "scheduleJobHandler TrimSpace ParseRFC3339 decoded now_ts new_id now_created exec_ok d =
     (case decoded of
        None \<Rightarrow> (HTTP_Error 400 ''invalid json'', d)
      | Some req \<Rightarrow>
          let subject = TrimSpace (req_subject req);
              body = TrimSpace (req_body req)
          in if subject = '''' \<or> body = '''' then (HTTP_Error 400 ''subject and body required'', d)
             else (case scheduled_ts ParseRFC3339 now_ts (req_scheduled_at req) of
                     None \<Rightarrow> (HTTP_Error 400 ''invalid scheduled_at'', d)
                   | Some ts \<Rightarrow>
                       (case insert_job exec_ok
                               \<lparr>job_id = new_id, job_subject = subject, job_body = body,
                                job_scheduled_at = ts, job_status = ''pending'',
                                job_created_at = now_created, job_completed_at = None\<rparr> d of
                          None \<Rightarrow> (HTTP_Error 500 ''db error'', d)
                        | Some d' \<Rightarrow> (JSON_OK new_id ts, d'))))"

text \<open>
  The validity of a request in the words of the claim: the body decodes, subject and
  body are not empty after trimming, and \<^verbatim>\<open>scheduled_at\<close> is empty, an RFC3339
  timestamp or a decimal integer, which is read as what \<open>ParseInt\<close> accepts.
\<close>

definition request_valid :: "(string \<Rightarrow> string) \<Rightarrow> (string \<Rightarrow> int option) \<Rightarrow> JobReq option \<Rightarrow> bool" where
  "request_valid TrimSpace ParseRFC3339 decoded =
     (case decoded of
        None \<Rightarrow> False
      | Some req \<Rightarrow>
          TrimSpace (req_subject req) \<noteq> '''' \<and> TrimSpace (req_body req) \<noteq> '''' \<and>
          (req_scheduled_at req = '''' \<or> ParseRFC3339 (req_scheduled_at req) \<noteq> None \<or>
           ParseInt (req_scheduled_at req) \<noteq> None))"

section \<open>The running system\<close>

text \<open>
  \<^verbatim>\<open>INSERT INTO subscribers(id,email,created_at) VALUES(?,?,?)\<close> of
  \<^verbatim>\<open>uploadCSVHandler\<close>: the id is the primary key and the email is unique.
\<close>

definition insert_subscriber :: "bool \<Rightarrow> string \<Rightarrow> string \<Rightarrow> int \<Rightarrow> store \<Rightarrow> store option" where
  "insert_subscriber ok sid email now d =
     (if \<not> ok \<or> sid \<in> set (map sub_id (subscribers d)) \<or>
         email \<in> set (map sub_email (subscribers d)) then None
      else Some (d\<lparr>subscribers := subscribers d @
        [\<lparr>sub_id = sid, sub_email = email, sub_created_at = now\<rparr>]\<rparr>))"

text \<open>
  The goroutines run interleaved, one statement on the store or the queue at a time;
  the rows of a query are those of the store when the query ran.
\<close>

text \<open>
  The goroutines of the program and where each of them stands. The scheduler sleeps
  between ticks or walks through the rows of its query. A dispatcher, started by
  \<^verbatim>\<open>go dispatchJob(id, subject, body)\<close>, is about to query the subscribers, or, that
  query having failed, before the update to \<open>failed\<close>, or in the insert loop (with the
  rows left and the tasks built so far), or submitting its tasks to the queue, or
  polling, or between the poll and the count of the failed sends, or, with that count,
  before the last update; when it returns it is gone. A worker waits for a task, or
  holds one before the first update, or after it with the send in flight.
\<close>

datatype sched_pc = Sleeping | Claiming "(string \<times> string \<times> string) list"

datatype disp_pc =
    Enumerating string string string
  | Failing string
  | Inserting string string string "(string \<times> string) list" "SendTask list"
  | Submitting string "SendTask list"
  | Polling string
  | Counting string
  | Updating string nat

datatype worker_pc = Idle | Marking SendTask | Sending SendTask

record system =
  db :: store
  taskQ :: "SendTask list"
  sched :: sched_pc
  dispatchers :: "disp_pc list"
  workers :: "worker_pc list"

text \<open>
  One statement of a dispatcher. \<open>sendID\<close>, \<open>now\<close> and \<open>ok\<close> are the id drawn, the
  clock reading and whether the store executes the statement, for the statements that
  use them. The result is the dispatcher's next position (\<open>None\<close> when it has
  returned), the store and the queue. A submission to a full queue waits. A refused
  count reads as zero, a refused update of the job leaves the store as it was.
\<close>

fun dispatch_step :: "string \<Rightarrow> int \<Rightarrow> bool \<Rightarrow> disp_pc \<Rightarrow> store \<Rightarrow> SendTask list \<Rightarrow>
    disp_pc option \<times> store \<times> SendTask list" where
  "dispatch_step sendID now ok (Enumerating jid subject body) d q =
     (if ok then (Some (Inserting jid subject body (select_subscribers d) []), d, q)
      else (Some (Failing jid), d, q))"
| "dispatch_step sendID now ok (Failing jid) d q =
     (None, discarded ok (set_job_status ''failed'' now jid) d, q)"
| "dispatch_step sendID now ok (Inserting jid subject body [] tasks) d q =
     (Some (Submitting jid tasks), d, q)"
| "dispatch_step sendID now ok (Inserting jid subject body ((sid, email) # rows) tasks) d q =
     (case insert_send ok sendID jid sid email now d of
        None \<Rightarrow> (Some (Inserting jid subject body rows tasks), d, q)
      | Some d' \<Rightarrow>
          (Some (Inserting jid subject body rows
             (tasks @ [\<lparr>SendID = sendID, JobID = jid, Email = email,
                        Subject = subject, Body = body\<rparr>])), d', q))"
| "dispatch_step sendID now ok (Submitting jid []) d q = (Some (Polling jid), d, q)"
| "dispatch_step sendID now ok (Submitting jid (t # ts)) d q =
     (if length q < taskQueueSize then (Some (Submitting jid ts), d, q @ [t])
      else (Some (Submitting jid (t # ts)), d, q))"
| "dispatch_step sendID now ok (Polling jid) d q =
     (if (if ok then count_remaining jid d else 0) = 0 then (Some (Counting jid), d, q)
      else (Some (Polling jid), d, q))"
| "dispatch_step sendID now ok (Counting jid) d q =
     (Some (Updating jid (if ok then count_failed jid d else 0)), d, q)"
| "dispatch_step sendID now ok (Updating jid failed) d q =
     (None,
      if failed > 0 then discarded ok (set_job_status ''completed_with_errors'' now jid) d
      else discarded ok (set_job_status ''completed'' now jid) d,
      q)"

text \<open>
  One statement of a worker: it takes the first task of the queue, or makes the first
  update, or finishes the send, with the outcome \<open>err\<close> of \<^verbatim>\<open>doSend\<close>, and makes the
  last update. \<open>ok\<close> is whether the store executes the update.
\<close>

fun work_step :: "int \<Rightarrow> bool \<Rightarrow> string option \<Rightarrow> worker_pc \<Rightarrow> store \<Rightarrow> SendTask list \<Rightarrow>
    worker_pc \<times> store \<times> SendTask list" where
  "work_step now ok err Idle d [] = (Idle, d, [])"
| "work_step now ok err Idle d (t # q) = (Marking t, d, q)"
| "work_step now ok err (Marking t) d q = (Sending t, worker_begin ok t d, q)"
| "work_step now ok err (Sending t) d q = (Idle, worker_end ok now t err d, q)"

text \<open>
  What can happen next: a call of \<^verbatim>\<open>scheduleJobHandler\<close>, one insert of
  \<^verbatim>\<open>uploadCSVHandler\<close>, the scheduler's ticker firing (with the clock and whether the
  query succeeds), the scheduler's next row (with whether the update succeeds), the
  next statement of the \<open>i\<close>-th dispatcher, the next statement of the \<open>i\<close>-th worker.
  An event that is not possible in a state leaves the state as it is.
\<close>

datatype event =
    Schedule "JobReq option" int string int bool
  | Subscribe string string int bool
  | Tick int bool
  | Claim bool
  | Dispatch nat string int bool
  | Work nat int bool "string option"

fun step :: "(string \<Rightarrow> string) \<Rightarrow> (string \<Rightarrow> int option) \<Rightarrow> event \<Rightarrow> system \<Rightarrow> system" where
  "step TrimSpace ParseRFC3339 (Schedule decoded now_ts new_id now_created ok) s =
     s\<lparr>db := snd (scheduleJobHandler TrimSpace ParseRFC3339 decoded now_ts new_id now_created ok
                    (db s))\<rparr>"
| "step TrimSpace ParseRFC3339 (Subscribe sid email now ok) s =
     (case insert_subscriber ok sid email now (db s) of
        None \<Rightarrow> s
      | Some d' \<Rightarrow> s\<lparr>db := d'\<rparr>)"
| "step TrimSpace ParseRFC3339 (Tick now ok) s =
     (case sched s of
        Sleeping \<Rightarrow> if ok then s\<lparr>sched := Claiming (select_due now (db s))\<rparr> else s
      | Claiming rows \<Rightarrow> s)"
| "step TrimSpace ParseRFC3339 (Claim ok) s =
     (case sched s of
        Sleeping \<Rightarrow> s
      | Claiming [] \<Rightarrow> s\<lparr>sched := Sleeping\<rparr>
      | Claiming ((jid, subject, body) # rows) \<Rightarrow>
          if ok then s\<lparr>db := fst (mark_running jid (db s)),
                       dispatchers := dispatchers s @ [Enumerating jid subject body],
                       sched := Claiming rows\<rparr>
          else s\<lparr>sched := Claiming rows\<rparr>)"
| "step TrimSpace ParseRFC3339 (Dispatch i sendID now ok) s =
     (if i < length (dispatchers s) then
        (case dispatch_step sendID now ok (dispatchers s ! i) (db s) (taskQ s) of
           (None, d', q') \<Rightarrow>
             s\<lparr>db := d', taskQ := q',
               dispatchers := take i (dispatchers s) @ drop (Suc i) (dispatchers s)\<rparr>
         | (Some pc, d', q') \<Rightarrow>
             s\<lparr>db := d', taskQ := q', dispatchers := (dispatchers s)[i := pc]\<rparr>)
      else s)"
| "step TrimSpace ParseRFC3339 (Work i now ok err) s =
     (if i < length (workers s) then
        (case work_step now ok err (workers s ! i) (db s) (taskQ s) of
           (pc, d', q') \<Rightarrow> s\<lparr>db := d', taskQ := q', workers := (workers s)[i := pc]\<rparr>)
      else s)"

fun exec :: "(string \<Rightarrow> string) \<Rightarrow> (string \<Rightarrow> int option) \<Rightarrow> event list \<Rightarrow> system \<Rightarrow> system" where
  "exec TrimSpace ParseRFC3339 [] s = s"
| "exec TrimSpace ParseRFC3339 (ev # evs) s =
     exec TrimSpace ParseRFC3339 evs (step TrimSpace ParseRFC3339 ev s)"

text \<open>
  The program starts on the store it finds (\<^verbatim>\<open>initDB\<close> creates the tables only when
  they are missing), with an empty queue, the scheduler asleep, no dispatcher and
  \<open>workerCount\<close> idle workers.
\<close>

definition start :: "store \<Rightarrow> system" where
  "start d = \<lparr>db = d, taskQ = [], sched = Sleeping, dispatchers = [],
              workers = replicate workerCount Idle\<rparr>"

text \<open>The status of the job with a given id.\<close>

definition status_of :: "store \<Rightarrow> string \<Rightarrow> string option" where
  "status_of d jid = map_of (map (\<lambda>j. (job_id j, job_status j)) (jobs d)) jid"

definition valid_job_status :: "string \<Rightarrow> bool" where
  "valid_job_status st \<longleftrightarrow>
     st \<in> set [''pending'', ''running'', ''completed'', ''completed_with_errors'', ''failed'']"

definition terminal_job_status :: "string \<Rightarrow> bool" where
  "terminal_job_status st \<longleftrightarrow> st \<in> set [''completed'', ''completed_with_errors'', ''failed'']"

definition job_edge :: "string \<Rightarrow> string \<Rightarrow> bool" where
  "job_edge a b \<longleftrightarrow> a = ''pending'' \<and> b = ''running'' \<or> a = ''running'' \<and> terminal_job_status b"

fun disp_job :: "disp_pc \<Rightarrow> string" where
  "disp_job (Enumerating jid subject body) = jid"
| "disp_job (Failing jid) = jid"
| "disp_job (Inserting jid subject body rows tasks) = jid"
| "disp_job (Submitting jid tasks) = jid"
| "disp_job (Polling jid) = jid"
| "disp_job (Counting jid) = jid"
| "disp_job (Updating jid failed) = jid"

fun sched_rows :: "sched_pc \<Rightarrow> (string \<times> string \<times> string) list" where
  "sched_rows Sleeping = []"
| "sched_rows (Claiming rows) = rows"

text \<open>
  What the program relies on in the store it starts on: job ids are distinct (the
  primary key) and every job status is one of the five the program writes.
\<close>

definition jobs_wf :: "store \<Rightarrow> bool" where
  "jobs_wf d \<longleftrightarrow>
     distinct (map job_id (jobs d)) \<and> (\<forall>j \<in> set (jobs d). valid_job_status (job_status j))"

text \<open>
  The invariant of the job table: beside the above, the rows the scheduler still has to
  walk through are distinct jobs that are pending, and the dispatchers alive are for
  distinct jobs that are running.
\<close>

definition claimable :: "system \<Rightarrow> string list" where
  "claimable s = map fst (sched_rows (sched s))"

definition dispatched :: "system \<Rightarrow> string list" where
  "dispatched s = map disp_job (dispatchers s)"

definition jobs_inv :: "system \<Rightarrow> bool" where
  "jobs_inv s \<longleftrightarrow>
     jobs_wf (db s) \<and>
     distinct (claimable s) \<and>
     (\<forall>k \<in> set (claimable s). status_of (db s) k = Some ''pending'') \<and>
     distinct (dispatched s) \<and>
     (\<forall>k \<in> set (dispatched s). status_of (db s) k = Some ''running'')"

text \<open>
  How the job table may differ after a statement: a job that was not there is still not
  there or is pending, and a job that was there has the status it had or one that an
  edge of the state machine leads to.
\<close>

definition job_moves :: "store \<Rightarrow> store \<Rightarrow> bool" where
  "job_moves d d' \<longleftrightarrow>
     (\<forall>k. case status_of d k of
             None \<Rightarrow> status_of d' k = None \<or> status_of d' k = Some ''pending''
           | Some st \<Rightarrow> status_of d' k = Some st \<or>
                        (\<exists>st'. status_of d' k = Some st' \<and> job_edge st st'))"

text \<open>
  The tasks a dispatcher holds (built and not yet submitted), and the send ids held
  anywhere in the system: those of the tasks that are with a dispatcher, in the queue
  or with a worker.
\<close>

fun disp_tasks :: "disp_pc \<Rightarrow> SendTask list" where
  "disp_tasks (Inserting jid subject body rows tasks) = tasks"
| "disp_tasks (Submitting jid tasks) = tasks"
| "disp_tasks (Enumerating jid subject body) = []"
| "disp_tasks (Failing jid) = []"
| "disp_tasks (Polling jid) = []"
| "disp_tasks (Counting jid) = []"
| "disp_tasks (Updating jid failed) = []"

fun worker_held :: "worker_pc \<Rightarrow> string list" where
  "worker_held Idle = []"
| "worker_held (Marking t) = [SendID t]"
| "worker_held (Sending t) = [SendID t]"

definition held :: "system \<Rightarrow> string list" where
  "held s =
     map SendID (concat (map disp_tasks (dispatchers s))) @
     map SendID (taskQ s) @
     concat (map worker_held (workers s))"

text \<open>
  A send row is live while it is queued or sending. The invariant of the sends table:
  no send id is held twice, and every held id is in the table, on live rows only.
\<close>

definition live_send :: "send \<Rightarrow> bool" where
  "live_send x \<longleftrightarrow> send_status x = ''queued'' \<or> send_status x = ''sending''"

definition sends_inv :: "system \<Rightarrow> bool" where
  "sends_inv s \<longleftrightarrow>
     distinct (held s) \<and>
     (\<forall>k \<in> set (held s).
        k \<in> set (map send_id (sends (db s))) \<and>
        (\<forall>x \<in> set (sends (db s)). send_id x = k \<longrightarrow> live_send x))"

text \<open>
  How the sends table and the held ids may differ after a statement: not at all; or
  the table is the same and a held id is given up (a last update that the store
  refused); or a queued row with a new id is appended and its id is held; or the first
  update of a worker is applied for a held id; or the last update of a worker is
  applied for a held id, which is then given up.
\<close>

definition sends_moves :: "system \<Rightarrow> system \<Rightarrow> bool" where
  "sends_moves s s' \<longleftrightarrow>
     (sends (db s') = sends (db s) \<and> mset (held s') = mset (held s)) \<or>
     (\<exists>sid. sends (db s') = sends (db s) \<and> mset (held s) = add_mset sid (mset (held s'))) \<or>
     (\<exists>x. sends (db s') = sends (db s) @ [x] \<and>
          send_id x \<notin> set (map send_id (sends (db s))) \<and> send_status x = ''queued'' \<and>
          mset (held s') = add_mset (send_id x) (mset (held s))) \<or>
     (\<exists>sid. sid \<in> set (held s) \<and> mset (held s') = mset (held s) \<and>
          sends (db s') = sends (mark_sending sid (db s))) \<or>
     (\<exists>sid now e. mset (held s) = add_mset sid (mset (held s')) \<and>
          (sends (db s') = sends (mark_sent now sid (db s)) \<or>
           sends (db s') = sends (mark_failed e sid (db s))))"


text \<open>The ids of the send rows of a job, in the order of the table.\<close>

definition job_send_ids :: "string \<Rightarrow> store \<Rightarrow> string list" where
  "job_send_ids jid d = map send_id (filter (\<lambda>x. send_job_id x = jid) (sends d))"



text \<open>
  \<open>n\<close> statements of a dispatcher in a row, with no statement of another goroutine
  in between; \<open>gen k\<close> gives the id, the clock and the store's answer for the first.
\<close>

fun dispatch_steps :: "(nat \<Rightarrow> string \<times> int \<times> bool) \<Rightarrow> nat \<Rightarrow> nat \<Rightarrow> disp_pc \<Rightarrow> store \<Rightarrow>
    SendTask list \<Rightarrow> disp_pc option \<times> store \<times> SendTask list" where
  "dispatch_steps gen k 0 pc d q = (Some pc, d, q)"
| "dispatch_steps gen k (Suc n) pc d q =
     (case gen k of (sendID, now, ok) \<Rightarrow>
        (case dispatch_step sendID now ok pc d q of
           (None, d', q') \<Rightarrow> (None, d', q')
         | (Some pc', d', q') \<Rightarrow> dispatch_steps gen (Suc k) n pc' d' q'))"

section \<open>Example stores\<close>

definition ex_job :: job where
  "ex_job = \<lparr>job_id = ''j1'', job_subject = ''hello'', job_body = ''text'',
     job_scheduled_at = 100, job_status = ''pending'', job_created_at = 50,
     job_completed_at = None\<rparr>"

definition ex_store :: store where
  "ex_store = \<lparr>subscribers = [], jobs = [ex_job], sends = []\<rparr>"

definition ex_running :: job where
  "ex_running = ex_job\<lparr>job_status := ''running''\<rparr>"

definition ex_running_store :: store where
  "ex_running_store = \<lparr>subscribers = [], jobs = [ex_running], sends = []\<rparr>"

definition ex_send :: send where
  "ex_send = \<lparr>send_id = ''s1'', send_job_id = ''j1'', send_subscriber_id = ''u1'',
     send_email = ''a@example.com'', send_status = ''queued'', send_attempts = SqlInteger 0,
     send_last_error = None, send_created_at = 120, send_sent_at = None\<rparr>"

definition ex_sends_store :: store where
  "ex_sends_store = \<lparr>subscribers = [], jobs = [ex_running],
     sends = [ex_send, ex_send\<lparr>send_id := ''s2'', send_status := ''failed''\<rparr>]\<rparr>"

definition ex_gen :: "nat \<Rightarrow> string \<times> int \<times> bool" where
  "ex_gen i = (replicate (Suc i) CHR ''s'', 120, True)"

definition ex_task :: SendTask where
  "ex_task = \<lparr>SendID = ''s1'', JobID = ''j1'', Email = ''a@example.com'',
     Subject = ''hello'', Body = ''text''\<rparr>"

text \<open>
  Two send collaborators for the examples. The world is the list of what was handed
  over for delivery: the recipient, and the status the send row of the task had at the
  moment of the call.
\<close>

definition seen_status :: "SendTask \<Rightarrow> store \<Rightarrow> string list" where
  "seen_status t d = map send_status (filter (\<lambda>x. send_id x = SendID t) (sends d))"

definition send_ok :: "SendTask \<Rightarrow> store \<Rightarrow> (string \<times> string list) list \<Rightarrow>
    string option \<times> (string \<times> string list) list" where
  "send_ok t d w = (None, w @ [(Email t, seen_status t d)])"

definition send_refused :: "SendTask \<Rightarrow> store \<Rightarrow> (string \<times> string list) list \<Rightarrow>
    string option \<times> (string \<times> string list) list" where
  "send_refused t d w = (Some ''connection refused'', w @ [(Email t, seen_status t d)])"

text \<open>
  An environment without \<^verbatim>\<open>SMTP_HOST\<close>, and a mail system that records the recipients
  it is given.
\<close>

definition ex_getenv :: "string \<Rightarrow> string" where
  "ex_getenv v = (if v = ''SMTP_FROM'' then ''news@example.com'' else [])"

definition ex_SendMail :: "string \<Rightarrow> string \<times> string \<times> string \<Rightarrow> string \<Rightarrow> string list \<Rightarrow> string \<Rightarrow>
    (string \<times> string list) list \<Rightarrow> string option \<times> (string \<times> string list) list" where
  "ex_SendMail addr auth from to msg w = (None, w @ [(addr, to)])"

definition polls_ok :: "nat \<Rightarrow> bool" where
  "polls_ok k = True"

definition polls_refused :: "nat \<Rightarrow> bool" where
  "polls_refused k = False"

definition ex_TrimSpace :: "string \<Rightarrow> string" where
  "ex_TrimSpace s =
     rev (dropWhile (\<lambda>c. c = CHR '' '') (rev (dropWhile (\<lambda>c. c = CHR '' '') s)))"

definition ex_ParseRFC3339 :: "string \<Rightarrow> int option" where
  "ex_ParseRFC3339 s = (if s = ''1970-01-01T00:01:40Z'' then Some 100 else None)"

definition ex_req :: JobReq where
  "ex_req = \<lparr>req_subject = '' hello '', req_body = ''text'', req_scheduled_at = ''1700000000''\<rparr>"

definition ex_sub_store :: store where
  "ex_sub_store =
     \<lparr>subscribers = [\<lparr>sub_id = ''u1'', sub_email = ''a@example.com'', sub_created_at = 10\<rparr>],
      jobs = [ex_job], sends = []\<rparr>"

definition ex_sent :: send where
  "ex_sent = ex_send\<lparr>send_status := ''sent'', send_attempts := SqlInteger 1,
     send_sent_at := Some 130\<rparr>"

definition ex_done_store :: store where
  "ex_done_store = \<lparr>subscribers = [], jobs = [ex_running],
     sends = [ex_sent, ex_send\<lparr>send_id := ''s2'', send_status := ''failed''\<rparr>]\<rparr>"

definition ex_task2 :: SendTask where
  "ex_task2 = ex_task\<lparr>SendID := ''s2'', Email := ''b@example.com''\<rparr>"

definition ex_run :: "event list" where
  "ex_run =
     [Tick 100 True, Claim True, Dispatch 0 ''s1'' 120 True, Dispatch 0 ''s1'' 120 True,
      Dispatch 0 ''s1'' 120 True, Dispatch 0 ''s1'' 120 True,
      Work 0 130 True None, Work 0 130 True None, Work 0 130 True None]"


section \<open>Properties of the scheduler tick\<close>

lemma claim_rows_started:
  "snd (claim_rows failing rows d started) =
     started @ filter (\<lambda>r. fst r \<notin> set failing) rows"
  by (induction failing rows d started rule: claim_rows.induct) auto

lemma claim_rows_jobs:
  "jobs (fst (claim_rows failing rows d started)) =
     map (\<lambda>j. if job_id j \<in> fst ` set rows - set failing then j\<lparr>job_status := ''running''\<rparr> else j) (jobs d)"
proof (induction failing rows d started rule: claim_rows.induct)
  case (1 failing d started)
  then show ?case by (simp add: map_idI)
next
  case (2 failing jid subject body rows d started)
  then show ?case
    by (auto simp: mark_running_def)
qed

lemma claim_rows_sends:
  "sends (fst (claim_rows failing rows d started)) = sends d"
  by (induction failing rows d started rule: claim_rows.induct) (auto simp: mark_running_def)

lemma claim_rows_subscribers:
  "subscribers (fst (claim_rows failing rows d started)) = subscribers d"
  by (induction failing rows d started rule: claim_rows.induct) (auto simp: mark_running_def)

lemma select_due_ids:
  "jid \<in> fst ` set (select_due now d) \<longleftrightarrow>
     (\<exists>j \<in> set (jobs d). job_id j = jid \<and> job_status j = ''pending'' \<and> job_scheduled_at j \<le> now)"
  by (force simp: select_due_def)

lemma distinct_ids_unique:
  "distinct (map job_id js) \<Longrightarrow> j \<in> set js \<Longrightarrow> j' \<in> set js \<Longrightarrow> job_id j' = job_id j \<Longrightarrow> j' = j"
  by (meson distinct_map inj_onD)

lemma unclaimed_row_kept:
  assumes "j \<in> set (jobs d)" "job_id j \<notin> fst ` set rows - set failing"
  shows "j \<in> set (jobs (fst (claim_rows failing rows d started)))"
proof -
  let ?f = "\<lambda>j. if job_id j \<in> fst ` set rows - set failing then j\<lparr>job_status := ''running''\<rparr> else j"
  have "?f j = j"
    using assms(2) by auto
  moreover have "?f j \<in> ?f ` set (jobs d)"
    using assms(1) by (rule imageI)
  ultimately have "j \<in> ?f ` set (jobs d)"
    by simp
  then show ?thesis
    by (simp only: claim_rows_jobs set_map)
qed

text \<open>
  Claim C9. A tick leaves a job that is already \<open>running\<close> as it is: the row is still
  in the table unchanged, the tick inserts no send row at all, and it starts no
  dispatcher for that job. Job ids are the primary key of the table, hence distinct.
\<close>

theorem tick_idempotent_on_running:
  assumes "distinct (map job_id (jobs d))" and "j \<in> set (jobs d)"
    and "job_status j = ''running''"
  shows "j \<in> set (jobs (fst (enqueueDueJobs now query_ok failing d))) \<and>
         sends (fst (enqueueDueJobs now query_ok failing d)) = sends d \<and>
         job_id j \<notin> fst ` set (snd (enqueueDueJobs now query_ok failing d))"
proof -
  have notsel: "job_id j \<notin> fst ` set (select_due now d)"
  proof
    assume "job_id j \<in> fst ` set (select_due now d)"
    then obtain j' where "j' \<in> set (jobs d)" "job_id j' = job_id j" "job_status j' = ''pending''"
      unfolding select_due_ids by blast
    with assms have "j' = j" by (meson distinct_ids_unique)
    with \<open>job_status j' = ''pending''\<close> assms(3) show False by simp
  qed
  show ?thesis
  proof (cases query_ok)
    case False
    then show ?thesis using assms(2) by (simp add: enqueueDueJobs_def)
  next
    case True
    have "j \<in> set (jobs (fst (claim_rows failing (select_due now d) d [])))"
      using assms(2) notsel by (intro unclaimed_row_kept) auto
    moreover have "job_id j \<notin> fst ` set (snd (claim_rows failing (select_due now d) d []))"
      using notsel by (auto simp: claim_rows_started)
    ultimately show ?thesis using True
      by (simp add: enqueueDueJobs_def claim_rows_sends)
  qed
qed

theorem tick_idempotent_on_running_witness:
  "distinct (map job_id [ex_running]) \<and> ex_running \<in> set [ex_running] \<and>
   job_status ex_running = ''running'' \<and>
   ex_running \<in> set (jobs (fst (enqueueDueJobs 200 True [] (ex_store\<lparr>jobs := [ex_running]\<rparr>)))) \<and>
   sends (fst (enqueueDueJobs 200 True [] (ex_store\<lparr>jobs := [ex_running]\<rparr>))) = [] \<and>
   ''j1'' \<notin> fst ` set (snd (enqueueDueJobs 200 True [] (ex_store\<lparr>jobs := [ex_running]\<rparr>)))"
  using tick_idempotent_on_running [of "ex_store\<lparr>jobs := [ex_running]\<rparr>" ex_running 200 True "[]"]
  by (simp add: ex_store_def ex_running_def ex_job_def)

lemma selected_iff_due:
  assumes "distinct (map job_id (jobs d))" and "j \<in> set (jobs d)"
  shows "job_id j \<in> fst ` set (select_due now d) \<longleftrightarrow>
         job_status j = ''pending'' \<and> job_scheduled_at j \<le> now"
proof
  assume "job_id j \<in> fst ` set (select_due now d)"
  then obtain j' where j': "j' \<in> set (jobs d)" "job_id j' = job_id j"
      "job_status j' = ''pending''" "job_scheduled_at j' \<le> now"
    unfolding select_due_ids by blast
  with assms have "j' = j" by (meson distinct_ids_unique)
  with j' show "job_status j = ''pending'' \<and> job_scheduled_at j \<le> now" by simp
next
  assume "job_status j = ''pending'' \<and> job_scheduled_at j \<le> now"
  with assms(2) show "job_id j \<in> fst ` set (select_due now d)"
    unfolding select_due_ids by blast
qed

lemma claimed_row_running:
  assumes "j \<in> set (jobs d)" "job_id j \<in> fst ` set rows - set failing"
  shows "j\<lparr>job_status := ''running''\<rparr> \<in> set (jobs (fst (claim_rows failing rows d started)))"
proof -
  let ?f = "\<lambda>j. if job_id j \<in> fst ` set rows - set failing then j\<lparr>job_status := ''running''\<rparr> else j"
  have "?f j = j\<lparr>job_status := ''running''\<rparr>"
    using assms(2) by auto
  moreover have "?f j \<in> ?f ` set (jobs d)"
    using assms(1) by (rule imageI)
  ultimately have "j\<lparr>job_status := ''running''\<rparr> \<in> ?f ` set (jobs d)"
    by simp
  then show ?thesis
    by (simp only: claim_rows_jobs set_map)
qed

lemma select_due_row:
  "j \<in> set (jobs d) \<Longrightarrow> job_status j = ''pending'' \<Longrightarrow> job_scheduled_at j \<le> now \<Longrightarrow>
   (job_id j, job_subject j, job_body j) \<in> set (select_due now d)"
  by (auto simp: select_due_def)

lemma tick_job_ids:
  "map job_id (jobs (fst (enqueueDueJobs now query_ok failing d))) = map job_id (jobs d)"
proof (cases query_ok)
  case False
  then show ?thesis by (simp add: enqueueDueJobs_def)
next
  case True
  have "map job_id (map (\<lambda>j. if job_id j \<in> C then j\<lparr>job_status := ''running''\<rparr> else j) js) =
      map job_id js" for C and js :: "job list"
    by (induction js) auto
  with True show ?thesis
    by (simp only: enqueueDueJobs_def claim_rows_jobs not_True_eq_False if_False)
qed

lemma bad_tick_keeps:
  assumes "distinct (map job_id (jobs d))" and "j \<in> set (jobs d)"
    and "now < job_scheduled_at j \<or> \<not> query_ok \<or> job_id j \<in> set failing"
  shows "j \<in> set (jobs (fst (enqueueDueJobs now query_ok failing d)))"
    and "job_id j \<notin> fst ` set (snd (enqueueDueJobs now query_ok failing d))"
proof -
  show "j \<in> set (jobs (fst (enqueueDueJobs now query_ok failing d)))"
  proof (cases query_ok)
    case False
    then show ?thesis using assms(2) by (simp add: enqueueDueJobs_def)
  next
    case True
    with assms(3) have "now < job_scheduled_at j \<or> job_id j \<in> set failing"
      by simp
    then have "job_id j \<notin> fst ` set (select_due now d) - set failing"
      using selected_iff_due [OF assms(1,2), of now] by auto
    with assms(2) have "j \<in> set (jobs (fst (claim_rows failing (select_due now d) d [])))"
      by (rule unclaimed_row_kept)
    with True show ?thesis by (simp add: enqueueDueJobs_def)
  qed
  show "job_id j \<notin> fst ` set (snd (enqueueDueJobs now query_ok failing d))"
  proof (cases query_ok)
    case False
    then show ?thesis by (simp add: enqueueDueJobs_def)
  next
    case True
    with assms(3) have "now < job_scheduled_at j \<or> job_id j \<in> set failing"
      by simp
    then have "job_id j \<notin> fst ` set (select_due now d) \<or> job_id j \<in> set failing"
      using selected_iff_due [OF assms(1,2), of now] by auto
    with True show ?thesis
      by (auto simp: enqueueDueJobs_def claim_rows_started)
  qed
qed

lemma bad_ticks_keep:
  assumes "distinct (map job_id (jobs d))" and "j \<in> set (jobs d)"
    and "\<forall>tick \<in> set ticks. fst tick < job_scheduled_at j \<or> \<not> fst (snd tick) \<or>
           job_id j \<in> set (snd (snd tick))"
  shows "j \<in> set (jobs (run_ticks ticks d)) \<and> distinct (map job_id (jobs (run_ticks ticks d)))"
  using assms
proof (induction ticks arbitrary: d)
  case Nil
  then show ?case by simp
next
  case (Cons tick ticks)
  obtain now query_ok failing where t: "tick = (now, query_ok, failing)"
    by (cases tick) auto
  let ?d' = "fst (enqueueDueJobs now query_ok failing d)"
  from Cons.prems(3) t have "now < job_scheduled_at j \<or> \<not> query_ok \<or> job_id j \<in> set failing"
    by simp
  with Cons.prems(1,2) have "j \<in> set (jobs ?d')"
    by (rule bad_tick_keeps(1))
  moreover have "distinct (map job_id (jobs ?d'))"
    using Cons.prems(1) by (simp only: tick_job_ids)
  moreover have "\<forall>tick \<in> set ticks. fst tick < job_scheduled_at j \<or> \<not> fst (snd tick) \<or>
           job_id j \<in> set (snd (snd tick))"
    using Cons.prems(3) by simp
  ultimately have "j \<in> set (jobs (run_ticks ticks ?d')) \<and>
      distinct (map job_id (jobs (run_ticks ticks ?d')))"
    by (intro Cons.IH)
  then show ?case using t by simp
qed

lemma good_tick_claims:
  assumes "distinct (map job_id (jobs d))" and "j \<in> set (jobs d)"
    and "job_status j = ''pending''" and "job_scheduled_at j \<le> now" and query_ok
    and "job_id j \<notin> set failing"
  shows "j\<lparr>job_status := ''running''\<rparr> \<in> set (jobs (fst (enqueueDueJobs now query_ok failing d))) \<and>
         (job_id j, job_subject j, job_body j) \<in> set (snd (enqueueDueJobs now query_ok failing d))"
proof -
  let ?r = "enqueueDueJobs now query_ok failing d"
  have "job_id j \<in> fst ` set (select_due now d) - set failing"
    using selected_iff_due [OF assms(1,2), of now] assms(3,4,6) by simp
  with assms(2)
  have "j\<lparr>job_status := ''running''\<rparr> \<in> set (jobs (fst (claim_rows failing (select_due now d) d [])))"
    by (rule claimed_row_running)
  then have r1: "j\<lparr>job_status := ''running''\<rparr> \<in> set (jobs (fst ?r))"
    using assms(5) by (simp add: enqueueDueJobs_def)
  have "(job_id j, job_subject j, job_body j) \<in> set (select_due now d)"
    using assms(2,3,4) by (rule select_due_row)
  then have r2: "(job_id j, job_subject j, job_body j) \<in> set (snd ?r)"
    using assms(5,6) by (simp add: enqueueDueJobs_def claim_rows_started)
  from r1 r2 show ?thesis ..
qed

text \<open>
  Claim C6, as amended. A tick starts a dispatcher for a job only if the job is pending
  and its scheduled time is at most the tick's time; a job that is not pending or not
  yet due is left unchanged by the tick; on a tick whose query fails, and for a job
  whose update the store refuses, the job is left unchanged and no dispatcher is
  started for it; a pending job that is due is set to \<open>running\<close> and dispatched by
  the tick when the tick's query succeeds and the store does not refuse the update of
  that job. So, after any ticks that came too early or went wrong for it, a pending job
  is still pending, and the first tick at or after its due time that goes right claims
  it.
\<close>

theorem tick_claims_due_pending:
  assumes "distinct (map job_id (jobs d))" and "j \<in> set (jobs d)"
  shows "(job_id j \<in> fst ` set (snd (enqueueDueJobs now query_ok failing d)) \<longrightarrow>
            job_status j = ''pending'' \<and> job_scheduled_at j \<le> now) \<and>
         (\<not> (job_status j = ''pending'' \<and> job_scheduled_at j \<le> now) \<longrightarrow>
            j \<in> set (jobs (fst (enqueueDueJobs now query_ok failing d)))) \<and>
         (\<not> query_ok \<or> job_id j \<in> set failing \<longrightarrow>
            j \<in> set (jobs (fst (enqueueDueJobs now query_ok failing d))) \<and>
            job_id j \<notin> fst ` set (snd (enqueueDueJobs now query_ok failing d))) \<and>
         (job_status j = ''pending'' \<and> job_scheduled_at j \<le> now \<and> query_ok \<and>
          job_id j \<notin> set failing \<longrightarrow>
            j\<lparr>job_status := ''running''\<rparr> \<in> set (jobs (fst (enqueueDueJobs now query_ok failing d))) \<and>
            (job_id j, job_subject j, job_body j) \<in> set (snd (enqueueDueJobs now query_ok failing d))) \<and>
         ((\<forall>tick \<in> set ticks. fst tick < job_scheduled_at j \<or> \<not> fst (snd tick) \<or>
              job_id j \<in> set (snd (snd tick))) \<and>
          job_status j = ''pending'' \<and> job_scheduled_at j \<le> now \<and> query_ok \<and>
          job_id j \<notin> set failing \<longrightarrow>
            j \<in> set (jobs (run_ticks ticks d)) \<and>
            j\<lparr>job_status := ''running''\<rparr> \<in>
              set (jobs (fst (enqueueDueJobs now query_ok failing (run_ticks ticks d)))) \<and>
            (job_id j, job_subject j, job_body j) \<in>
              set (snd (enqueueDueJobs now query_ok failing (run_ticks ticks d))))"
proof -
  let ?r = "enqueueDueJobs now query_ok failing d"
  let ?due = "job_status j = ''pending'' \<and> job_scheduled_at j \<le> now"
  have c1: "job_id j \<in> fst ` set (snd ?r) \<longrightarrow> ?due"
  proof
    assume "job_id j \<in> fst ` set (snd ?r)"
    then have "job_id j \<in> fst ` set (select_due now d)"
      by (auto simp: enqueueDueJobs_def claim_rows_started split: if_splits)
    then show ?due
      using selected_iff_due [OF assms] by simp
  qed
  have c2: "\<not> ?due \<longrightarrow> j \<in> set (jobs (fst ?r))"
  proof
    assume "\<not> ?due"
    then have "job_id j \<notin> fst ` set (select_due now d)"
      using selected_iff_due [OF assms] by simp
    then have "j \<in> set (jobs (fst (claim_rows failing (select_due now d) d [])))"
      using assms(2) by (intro unclaimed_row_kept) auto
    then show "j \<in> set (jobs (fst ?r))"
      using assms(2) by (simp add: enqueueDueJobs_def)
  qed
  have c3: "\<not> query_ok \<or> job_id j \<in> set failing \<longrightarrow>
      j \<in> set (jobs (fst ?r)) \<and> job_id j \<notin> fst ` set (snd ?r)"
  proof
    assume "\<not> query_ok \<or> job_id j \<in> set failing"
    then have b: "now < job_scheduled_at j \<or> \<not> query_ok \<or> job_id j \<in> set failing"
      by simp
    from bad_tick_keeps [OF assms b]
    show "j \<in> set (jobs (fst ?r)) \<and> job_id j \<notin> fst ` set (snd ?r)" ..
  qed
  have c4: "job_status j = ''pending'' \<and> job_scheduled_at j \<le> now \<and> query_ok \<and>
      job_id j \<notin> set failing \<longrightarrow>
      j\<lparr>job_status := ''running''\<rparr> \<in> set (jobs (fst ?r)) \<and>
      (job_id j, job_subject j, job_body j) \<in> set (snd ?r)"
  proof
    assume a: "job_status j = ''pending'' \<and> job_scheduled_at j \<le> now \<and> query_ok \<and>
      job_id j \<notin> set failing"
    with assms show "j\<lparr>job_status := ''running''\<rparr> \<in> set (jobs (fst ?r)) \<and>
      (job_id j, job_subject j, job_body j) \<in> set (snd ?r)"
      by (intro good_tick_claims) simp_all
  qed
  let ?d' = "run_ticks ticks d"
  have c5: "(\<forall>tick \<in> set ticks. fst tick < job_scheduled_at j \<or> \<not> fst (snd tick) \<or>
              job_id j \<in> set (snd (snd tick))) \<and>
          job_status j = ''pending'' \<and> job_scheduled_at j \<le> now \<and> query_ok \<and>
          job_id j \<notin> set failing \<longrightarrow>
            j \<in> set (jobs ?d') \<and>
            j\<lparr>job_status := ''running''\<rparr> \<in>
              set (jobs (fst (enqueueDueJobs now query_ok failing ?d'))) \<and>
            (job_id j, job_subject j, job_body j) \<in>
              set (snd (enqueueDueJobs now query_ok failing ?d'))"
  proof
    assume a: "(\<forall>tick \<in> set ticks. fst tick < job_scheduled_at j \<or> \<not> fst (snd tick) \<or>
              job_id j \<in> set (snd (snd tick))) \<and>
          job_status j = ''pending'' \<and> job_scheduled_at j \<le> now \<and> query_ok \<and>
          job_id j \<notin> set failing"
    then have "\<forall>tick \<in> set ticks. fst tick < job_scheduled_at j \<or> \<not> fst (snd tick) \<or>
              job_id j \<in> set (snd (snd tick))"
      by (rule conjunct1)
    from bad_ticks_keep [OF assms this]
    have k: "j \<in> set (jobs ?d')" and dd: "distinct (map job_id (jobs ?d'))"
      by simp_all
    from a have "job_status j = ''pending''" "job_scheduled_at j \<le> now" query_ok
        "job_id j \<notin> set failing"
      by simp_all
    from good_tick_claims [OF dd k this] k
    show "j \<in> set (jobs ?d') \<and>
            j\<lparr>job_status := ''running''\<rparr> \<in>
              set (jobs (fst (enqueueDueJobs now query_ok failing ?d'))) \<and>
            (job_id j, job_subject j, job_body j) \<in>
              set (snd (enqueueDueJobs now query_ok failing ?d'))"
      by simp
  qed
  from c1 c2 c3 c4 c5 show ?thesis by (intro conjI)
qed

theorem tick_claims_due_pending_witness:
  "distinct (map job_id (jobs ex_store)) \<and> ex_job \<in> set (jobs ex_store) \<and>
   job_status ex_job = ''pending'' \<and> job_scheduled_at ex_job \<le> 100 \<and> \<not> job_scheduled_at ex_job \<le> 99 \<and>
   ex_job \<in> set (jobs (fst (enqueueDueJobs 99 True [] ex_store))) \<and>
   ex_running \<in> set (jobs (fst (enqueueDueJobs 100 True [] ex_store))) \<and>
   (''j1'', ''hello'', ''text'') \<in> set (snd (enqueueDueJobs 100 True [] ex_store)) \<and>
   ex_job \<in> set (jobs (fst (enqueueDueJobs 100 True [''j1''] ex_store))) \<and>
   ''j1'' \<notin> fst ` set (snd (enqueueDueJobs 100 True [''j1''] ex_store)) \<and>
   ex_job \<in> set (jobs (run_ticks [(99, True, []), (100, False, []), (105, True, [''j1''])] ex_store)) \<and>
   ex_running \<in> set (jobs (fst (enqueueDueJobs 110 True []
     (run_ticks [(99, True, []), (100, False, []), (105, True, [''j1''])] ex_store)))) \<and>
   (''j1'', ''hello'', ''text'') \<in> set (snd (enqueueDueJobs 110 True []
     (run_ticks [(99, True, []), (100, False, []), (105, True, [''j1''])] ex_store)))"
  using tick_claims_due_pending [of ex_store ex_job 99 True "[]" "[]"]
    tick_claims_due_pending [of ex_store ex_job 100 True "[]" "[]"]
    tick_claims_due_pending [of ex_store ex_job 100 True "[''j1'']" "[]"]
    tick_claims_due_pending [of ex_store ex_job 110 True "[]"
      "[(99, True, []), (100, False, []), (105, True, [''j1''])]"]
  by (simp add: ex_store_def ex_running_def ex_job_def)

text \<open>
  Claim C6 as stated fails: on a tick whose query returns an error, a job that is
  pending and due is not claimed; the tick returns with the store as it was.
\<close>

theorem query_error_leaves_due_job_pending:
  "job_status ex_job = ''pending'' \<and> job_scheduled_at ex_job \<le> 200 \<and>
   ex_job \<in> set (jobs ex_store) \<and> enqueueDueJobs 200 False [] ex_store = (ex_store, [])"
  by (simp add: enqueueDueJobs_def ex_store_def ex_job_def)

text \<open>
  Claim C1 as stated fails: the update that claims a job has no condition on the
  status, and executing it a second time on the same job, now \<open>running\<close>, affects
  one row again.
\<close>

theorem second_claim_affects_a_row:
  "job_status (hd (jobs ex_store)) = ''pending'' \<and>
   job_status (hd (jobs (fst (mark_running ''j1'' ex_store)))) = ''running'' \<and>
   snd (mark_running ''j1'' (fst (mark_running ''j1'' ex_store))) = 1"
  by (simp add: mark_running_def ex_store_def ex_job_def)

lemma count_after_status_update:
  "length (filter (\<lambda>j. job_id j = jid)
     (map (\<lambda>j. if job_id j = jid' then j\<lparr>job_status := st\<rparr> else j) js)) =
   length (filter (\<lambda>j. job_id j = jid) js)"
  by (induction js) auto

lemma mark_running_jobs:
  "jobs (fst (mark_running jid d)) =
     map (\<lambda>j. if job_id j = jid then j\<lparr>job_status := ''running''\<rparr> else j) (jobs d)"
  by (simp add: mark_running_def)

lemma mark_running_count:
  "snd (mark_running jid d) = length (filter (\<lambda>j. job_id j = jid) (jobs d))"
  by (simp add: mark_running_def)

lemma mark_running_again: "snd (mark_running jid (fst (mark_running jid d))) = snd (mark_running jid d)"
  by (simp only: mark_running_count mark_running_jobs count_after_status_update)

lemma mark_running_sets_status:
  assumes "j \<in> set (jobs (fst (mark_running jid d)))" and "job_id j = jid"
  shows "job_status j = ''running''"
proof -
  from assms(1) have "j \<in> (\<lambda>j. if job_id j = jid then j\<lparr>job_status := ''running''\<rparr> else j) ` set (jobs d)"
    by (simp only: mark_running_jobs set_map)
  then obtain j0 where e: "j = (if job_id j0 = jid then j0\<lparr>job_status := ''running''\<rparr> else j0)"
    by (rule imageE)
  show ?thesis
  proof (cases "job_id j0 = jid")
    case True
    with e show ?thesis by simp
  next
    case False
    with e have "j = j0" by simp
    with False assms(2) show ?thesis by simp
  qed
qed

lemma claim_update_facts:
  "snd (mark_running jid (fst (mark_running jid d))) = snd (mark_running jid d) \<and>
   (\<forall>j \<in> set (jobs (fst (mark_running jid d))). job_id j = jid \<longrightarrow> job_status j = ''running'') \<and>
   (\<forall>r \<in> set (snd (enqueueDueJobs now query_ok failing d)).
      (\<exists>j \<in> set (jobs d). job_id j = fst r \<and> job_status j = ''pending'' \<and> job_scheduled_at j \<le> now) \<and>
      fst r \<notin> fst ` set (select_due now' (fst (enqueueDueJobs now query_ok failing d))))"
proof (intro conjI ballI)
  show "snd (mark_running jid (fst (mark_running jid d))) = snd (mark_running jid d)"
    by (rule mark_running_again)
next
  fix j assume "j \<in> set (jobs (fst (mark_running jid d)))"
  then show "job_id j = jid \<longrightarrow> job_status j = ''running''"
    using mark_running_sets_status by blast
next
  fix r assume r: "r \<in> set (snd (enqueueDueJobs now query_ok failing d))"
  then have q: query_ok and sel: "r \<in> set (select_due now d)" and nf: "fst r \<notin> set failing"
    by (auto simp: enqueueDueJobs_def claim_rows_started split: if_splits)
  from sel have "fst r \<in> fst ` set (select_due now d)" by (rule imageI)
  then show "\<exists>j \<in> set (jobs d). job_id j = fst r \<and> job_status j = ''pending'' \<and> job_scheduled_at j \<le> now"
    unfolding select_due_ids .
  have cl: "fst r \<in> fst ` set (select_due now d) - set failing"
    using sel nf by auto
  have res: "fst (enqueueDueJobs now query_ok failing d) = fst (claim_rows failing (select_due now d) d [])"
    using q by (simp add: enqueueDueJobs_def)
  show "fst r \<notin> fst ` set (select_due now' (fst (enqueueDueJobs now query_ok failing d)))"
  proof
    assume "fst r \<in> fst ` set (select_due now' (fst (enqueueDueJobs now query_ok failing d)))"
    then have "\<exists>j' \<in> set (jobs (fst (claim_rows failing (select_due now d) d []))).
        job_id j' = fst r \<and> job_status j' = ''pending'' \<and> job_scheduled_at j' \<le> now'"
      unfolding select_due_ids res .
    then obtain j' where j': "j' \<in> set (jobs (fst (claim_rows failing (select_due now d) d [])))"
        "job_id j' = fst r" "job_status j' = ''pending''"
      by blast
    from j'(1) have "j' \<in> (\<lambda>j. if job_id j \<in> fst ` set (select_due now d) - set failing
                   then j\<lparr>job_status := ''running''\<rparr> else j) ` set (jobs d)"
      by (simp only: claim_rows_jobs set_map)
    then obtain j0 where "j0 \<in> set (jobs d)"
        and e: "j' = (if job_id j0 \<in> fst ` set (select_due now d) - set failing
                   then j0\<lparr>job_status := ''running''\<rparr> else j0)"
      by (rule imageE)
    show False
    proof (cases "job_id j0 \<in> fst ` set (select_due now d) - set failing")
      case True
      with e j'(3) show False by simp
    next
      case False
      with e have "j' = j0" by auto
      with False j'(2) cl show False by auto
    qed
  qed
qed


section \<open>Properties of the dispatcher\<close>

lemma set_job_status_sends: "sends (set_job_status st now jid d) = sends d"
  by (simp add: set_job_status_def)

lemma set_job_status_jobs:
  "jobs (set_job_status st now jid d) =
     map (\<lambda>j. if job_id j = jid then j\<lparr>job_status := st, job_completed_at := Some now\<rparr> else j) (jobs d)"
  by (simp add: set_job_status_def)

lemma count_failed_pos:
  "0 < count_failed jid d \<longleftrightarrow> (\<exists>s \<in> set (sends d). send_job_id s = jid \<and> send_status s = ''failed'')"
  by (simp add: count_failed_def filter_empty_conv)

lemma count_remaining_zero:
  "count_remaining jid d = 0 \<longleftrightarrow>
     (\<forall>x \<in> set (sends d). send_job_id x = jid \<longrightarrow>
        send_status x \<noteq> ''queued'' \<and> send_status x \<noteq> ''sending'')"
  by (auto simp: count_remaining_def filter_empty_conv)

lemma count_failed_none:
  "\<forall>s \<in> set (sends d). send_job_id s \<noteq> jid \<Longrightarrow> count_failed jid d = 0"
  by (simp add: count_failed_def filter_empty_conv)

text \<open>
  The polling loop returns exactly when a count is refused at some turn or no send of
  the job is queued or sending; otherwise it polls for ever.
\<close>

lemma wait_returns_now:
  "\<not> polls k \<or> count_remaining jid d = 0 \<Longrightarrow> wait_for_sends polls k jid d = Some ()"
  by (subst wait_for_sends.simps) auto

lemma wait_returns_later:
  "\<not> polls (k + n) \<Longrightarrow> wait_for_sends polls k jid d = Some ()"
proof (induction n arbitrary: k)
  case 0
  then show ?case by (simp add: wait_returns_now)
next
  case (Suc n)
  then have "wait_for_sends polls (Suc k) jid d = Some ()" by simp
  then show ?case by (subst wait_for_sends.simps) simp
qed

lemma wait_returned:
  assumes "wait_for_sends polls k jid d = Some u"
  shows "(\<exists>n. \<not> polls (k + n)) \<or> count_remaining jid d = 0"
proof (rule wait_for_sends.raw_induct
    [where P = "\<lambda>polls k jid d u. (\<exists>n. \<not> polls (k + n)) \<or> count_remaining jid d = 0",
      OF _ assms])
  fix w :: "(nat \<Rightarrow> bool) \<Rightarrow> nat \<Rightarrow> string \<Rightarrow> store \<Rightarrow> unit option"
  fix p :: "nat \<Rightarrow> bool" and i :: nat and j :: string and e :: store and v :: unit
  assume IH: "\<And>p i j e v. w p i j e = Some v \<Longrightarrow>
      (\<exists>n. \<not> p (i + n)) \<or> count_remaining j e = 0"
  assume eq: "(if (if p i then count_remaining j e else 0) = 0 then Some ()
      else w p (Suc i) j e) = Some v"
  show "(\<exists>n. \<not> p (i + n)) \<or> count_remaining j e = 0"
  proof (cases "(if p i then count_remaining j e else 0) = 0")
    case True
    then have "\<not> p (i + 0) \<or> count_remaining j e = 0"
      by (simp split: if_splits)
    then show ?thesis
    proof
      assume "\<not> p (i + 0)"
      then have "\<exists>n. \<not> p (i + n)" by (rule exI)
      then show ?thesis ..
    next
      assume "count_remaining j e = 0"
      then show ?thesis ..
    qed
  next
    case False
    with eq have "w p (Suc i) j e = Some v" by simp
    then have "(\<exists>n. \<not> p (Suc i + n)) \<or> count_remaining j e = 0" by (rule IH)
    then show ?thesis
    proof
      assume "\<exists>n. \<not> p (Suc i + n)"
      then obtain n where "\<not> p (i + Suc n)" by auto
      then have "\<exists>n. \<not> p (i + n)" by (rule exI)
      then show ?thesis ..
    next
      assume "count_remaining j e = 0"
      then show ?thesis ..
    qed
  qed
qed

lemma wait_for_sends_eq:
  "wait_for_sends polls k jid d =
     (if (\<exists>n. \<not> polls (k + n)) \<or>
         (\<forall>x \<in> set (sends d). send_job_id x = jid \<longrightarrow>
            send_status x \<noteq> ''queued'' \<and> send_status x \<noteq> ''sending'')
      then Some () else None)"
proof (cases "(\<exists>n. \<not> polls (k + n)) \<or> count_remaining jid d = 0")
  case True
  then have "wait_for_sends polls k jid d = Some ()"
    using wait_returns_later [of polls k _ jid d] wait_returns_now [of polls k jid d] by blast
  with True show ?thesis by (simp only: count_remaining_zero if_True)
next
  case False
  then have "wait_for_sends polls k jid d \<noteq> Some u" for u
    using wait_returned [of polls k jid d u] by auto
  then have "wait_for_sends polls k jid d = None"
    by (cases "wait_for_sends polls k jid d") auto
  with False show ?thesis by (simp only: count_remaining_zero if_False)
qed

lemma finalize_eq:
  "finalize count_ok upd_ok now jid d =
     discarded upd_ok
       (set_job_status
          (if count_ok \<and> (\<exists>s \<in> set (sends d). send_job_id s = jid \<and> send_status s = ''failed'')
           then ''completed_with_errors'' else ''completed'') now jid) d"
proof (cases "count_ok \<and> 0 < count_failed jid d")
  case True
  then have "count_ok \<and> (\<exists>s \<in> set (sends d). send_job_id s = jid \<and> send_status s = ''failed'')"
    by (simp add: count_failed_pos)
  then show ?thesis
    using True by (simp add: finalize_def)
next
  case False
  then have "\<not> (count_ok \<and> (\<exists>s \<in> set (sends d). send_job_id s = jid \<and> send_status s = ''failed''))"
    by (simp add: count_failed_pos)
  then show ?thesis
    using False by (auto simp add: finalize_def)
qed

lemma finalize_jobs:
  "jobs (finalize count_ok upd_ok now jid d) =
     (if upd_ok
      then map (\<lambda>j. if job_id j = jid
               then j\<lparr>job_status :=
                        (if count_ok \<and>
                            (\<exists>s \<in> set (sends d). send_job_id s = jid \<and> send_status s = ''failed'')
                         then ''completed_with_errors'' else ''completed''),
                      job_completed_at := Some now\<rparr>
               else j) (jobs d)
      else jobs d)"
  by (simp only: finalize_eq discarded_def set_job_status_jobs if_distrib [of jobs] cong: if_cong)

lemma finalize_sends: "sends (finalize count_ok upd_ok now jid d) = sends d"
  by (simp add: finalize_def discarded_def set_job_status_def)

lemma dispatchJob_eq:
  "dispatchJob True gen polls count_ok upd_ok now jid subject body d q =
     (case insert_sends gen 0 jid subject body (select_subscribers d) d [] of
        (d1, tasks) \<Rightarrow>
          if tasks \<noteq> [] \<and> taskQueueSize < length q + length tasks then None
          else if (\<exists>n. \<not> polls n) \<or>
                  (\<forall>x \<in> set (sends d1). send_job_id x = jid \<longrightarrow>
                     send_status x \<noteq> ''queued'' \<and> send_status x \<noteq> ''sending'')
          then Some (finalize count_ok upd_ok now jid d1, q @ tasks)
          else None)"
proof -
  have w: "wait_for_sends polls 0 jid d1 =
     (if (\<exists>n. \<not> polls n) \<or>
         (\<forall>x \<in> set (sends d1). send_job_id x = jid \<longrightarrow>
            send_status x \<noteq> ''queued'' \<and> send_status x \<noteq> ''sending'')
      then Some () else None)" for d1
    using wait_for_sends_eq [of polls 0 jid d1] by simp
  obtain d1 tasks where
    i: "insert_sends gen 0 jid subject body (select_subscribers d) d [] = (d1, tasks)"
    by (cases "insert_sends gen 0 jid subject body (select_subscribers d) d []") auto
  show ?thesis
    by (simp add: dispatchJob_def i w) blast
qed

lemma dispatch_steps_finalize:
  "dispatch_steps gen k 2 (Counting jid) d q =
     (None, finalize (snd (snd (gen k))) (snd (snd (gen (Suc k)))) (fst (snd (gen (Suc k)))) jid d, q)"
proof -
  obtain a b c where g0: "gen k = (a, b, c)" by (cases "gen k") auto
  obtain sendID now ok where g1: "gen (Suc k) = (sendID, now, ok)" by (cases "gen (Suc k)") auto
  have "dispatch_steps gen k (Suc (Suc 0)) (Counting jid) d q = (None, finalize c ok now jid d, q)"
    using g0 g1 by (simp add: finalize_def)
  then show ?thesis using g0 g1 by (simp add: numeral_2_eq_2)
qed

text \<open>
  Claim C2, as amended. The dispatcher's wait ends when no send of the job is queued or
  sending, or when the store refuses one of its counts, and not otherwise: with every
  count executed and a send of the job queued or sending it waits for ever. After the
  wait the dispatcher counts the failed sends of the job and updates the job: every row
  of the job is set to \<open>completed_with_errors\<close> when the count is executed and a send
  of the job is \<open>failed\<close>, and to \<open>completed\<close> otherwise, with the completion time,
  when the store executes the update; when the store refuses the update the job is
  left as it was. Nothing else changes. A job dispatched when there is no subscriber,
  and none of whose sends exists yet, is finalized without waiting, whatever the queue
  holds, with \<open>completed\<close>. The statements of the dispatcher taken one at a time do
  the same: the poll passes to the count exactly when it is refused or no send of the
  job is queued or sending, and the count and the update are those of \<open>finalize\<close>.
\<close>

theorem finalize_status:
  "wait_for_sends polls k jid d =
     (if (\<exists>n. \<not> polls (k + n)) \<or>
         (\<forall>x \<in> set (sends d). send_job_id x = jid \<longrightarrow>
            send_status x \<noteq> ''queued'' \<and> send_status x \<noteq> ''sending'')
      then Some () else None) \<and>
   dispatchJob True gen polls count_ok upd_ok now jid subject body d q =
     (case insert_sends gen 0 jid subject body (select_subscribers d) d [] of
        (d1, tasks) \<Rightarrow>
          if tasks \<noteq> [] \<and> taskQueueSize < length q + length tasks then None
          else if (\<exists>n. \<not> polls n) \<or>
                  (\<forall>x \<in> set (sends d1). send_job_id x = jid \<longrightarrow>
                     send_status x \<noteq> ''queued'' \<and> send_status x \<noteq> ''sending'')
          then Some (finalize count_ok upd_ok now jid d1, q @ tasks)
          else None) \<and>
   jobs (finalize count_ok upd_ok now jid d) =
     (if upd_ok
      then map (\<lambda>j. if job_id j = jid
               then j\<lparr>job_status :=
                        (if count_ok \<and>
                            (\<exists>s \<in> set (sends d). send_job_id s = jid \<and> send_status s = ''failed'')
                         then ''completed_with_errors'' else ''completed''),
                      job_completed_at := Some now\<rparr>
               else j) (jobs d)
      else jobs d) \<and>
   sends (finalize count_ok upd_ok now jid d) = sends d \<and>
   subscribers (finalize count_ok upd_ok now jid d) = subscribers d \<and>
   (subscribers d = [] \<and> (\<forall>s \<in> set (sends d). send_job_id s \<noteq> jid) \<longrightarrow>
      dispatchJob True gen polls count_ok upd_ok now jid subject body d q =
        Some (if upd_ok then set_job_status ''completed'' now jid d else d, q)) \<and>
   dispatch_step sendID now ok (Polling jid) d q =
     (Some (if \<not> ok \<or> (\<forall>x \<in> set (sends d). send_job_id x = jid \<longrightarrow>
                         send_status x \<noteq> ''queued'' \<and> send_status x \<noteq> ''sending'')
            then Counting jid else Polling jid), d, q) \<and>
   dispatch_steps gen k 2 (Counting jid) d q =
     (None, finalize (snd (snd (gen k))) (snd (snd (gen (Suc k)))) (fst (snd (gen (Suc k)))) jid d, q)"
proof -
  have c6: "subscribers d = [] \<and> (\<forall>s \<in> set (sends d). send_job_id s \<noteq> jid) \<longrightarrow>
      dispatchJob True gen polls count_ok upd_ok now jid subject body d q =
        Some (if upd_ok then set_job_status ''completed'' now jid d else d, q)"
  proof
    assume a: "subscribers d = [] \<and> (\<forall>s \<in> set (sends d). send_job_id s \<noteq> jid)"
    then have f: "count_failed jid d = 0"
      by (simp add: count_failed_none)
    from a have i: "insert_sends gen 0 jid subject body (select_subscribers d) d [] = (d, [])"
      by (simp add: select_subscribers_def)
    from a have n: "\<forall>x \<in> set (sends d). send_job_id x = jid \<longrightarrow>
        send_status x \<noteq> ''queued'' \<and> send_status x \<noteq> ''sending''"
      by simp
    have "dispatchJob True gen polls count_ok upd_ok now jid subject body d q =
        Some (finalize count_ok upd_ok now jid d, q)"
      using n by (simp add: dispatchJob_eq i)
    moreover have "finalize count_ok upd_ok now jid d =
        (if upd_ok then set_job_status ''completed'' now jid d else d)"
      using f by (simp add: finalize_def discarded_def)
    ultimately show "dispatchJob True gen polls count_ok upd_ok now jid subject body d q =
        Some (if upd_ok then set_job_status ''completed'' now jid d else d, q)"
      by simp
  qed
  have c7: "dispatch_step sendID now ok (Polling jid) d q =
     (Some (if \<not> ok \<or> (\<forall>x \<in> set (sends d). send_job_id x = jid \<longrightarrow>
                         send_status x \<noteq> ''queued'' \<and> send_status x \<noteq> ''sending'')
            then Counting jid else Polling jid), d, q)"
    using count_remaining_zero [of jid d] by (cases ok) auto
  have c5: "subscribers (finalize count_ok upd_ok now jid d) = subscribers d"
    by (simp add: finalize_def discarded_def set_job_status_def)
  from wait_for_sends_eq dispatchJob_eq finalize_jobs finalize_sends c5 c6 c7
    dispatch_steps_finalize
  show ?thesis by (intro conjI)
qed

theorem finalize_status_witness:
  "wait_for_sends polls_ok 0 ''j1'' ex_done_store = Some () \<and>
   wait_for_sends polls_ok 0 ''j1'' ex_sends_store = None \<and>
   wait_for_sends polls_refused 0 ''j1'' ex_sends_store = Some () \<and>
   dispatchJob True ex_gen polls_ok True True 300 ''j1'' ''hello'' ''text'' ex_done_store [ex_task] =
     Some (ex_done_store\<lparr>jobs :=
             [ex_running\<lparr>job_status := ''completed_with_errors'', job_completed_at := Some 300\<rparr>]\<rparr>,
           [ex_task]) \<and>
   dispatchJob True ex_gen polls_ok True True 300 ''j1'' ''hello'' ''text'' ex_sends_store [ex_task] =
     None \<and>
   subscribers ex_running_store = [] \<and> sends ex_running_store = [] \<and>
   dispatchJob True ex_gen polls_ok True True 300 ''j1'' ''hello'' ''text'' ex_running_store [ex_task] =
     Some (\<lparr>subscribers = [],
            jobs = [ex_running\<lparr>job_status := ''completed'', job_completed_at := Some 300\<rparr>],
            sends = []\<rparr>, [ex_task]) \<and>
   fst (dispatch_step ''s9'' 300 True (Polling ''j1'') ex_sends_store []) = Some (Polling ''j1'') \<and>
   fst (dispatch_step ''s9'' 300 True (Polling ''j1'') ex_done_store []) = Some (Counting ''j1'')"
  using finalize_status [of polls_ok 0 "''j1''" ex_done_store ex_gen True True 300 "''hello''"
      "''text''" "[ex_task]" "''s9''" True]
    finalize_status [of polls_ok 0 "''j1''" ex_sends_store ex_gen True True 300 "''hello''"
      "''text''" "[ex_task]" "''s9''" True]
    finalize_status [of polls_refused 0 "''j1''" ex_sends_store ex_gen True True 300 "''hello''"
      "''text''" "[ex_task]" "''s9''" True]
    finalize_status [of polls_ok 0 "''j1''" ex_running_store ex_gen True True 300 "''hello''"
      "''text''" "[ex_task]" "''s9''" True]
  by (simp add: ex_running_store_def ex_sends_store_def ex_done_store_def ex_send_def ex_sent_def
      ex_running_def ex_job_def set_job_status_def select_subscribers_def polls_ok_def
      polls_refused_def finalize_def discarded_def count_failed_def count_remaining_def)

text \<open>
  Claim C2 as stated fails. The source discards the errors of the count of the failed
  sends and of the update of the job, and of the counts of the polling loop. On a
  store where no send of the job is queued or sending and one is \<open>failed\<close>, the
  dispatcher writes \<open>completed\<close> when the store refuses the count, and leaves the job
  \<open>running\<close> when the store refuses the update; and when the store refuses the poll the
  dispatcher finalizes the job while its send is still queued.
\<close>

theorem refused_count_hides_failed_send:
  "send_job_id (sends ex_done_store ! 0) = ''j1'' \<and> send_status (sends ex_done_store ! 0) = ''sent'' \<and>
   send_job_id (sends ex_done_store ! 1) = ''j1'' \<and> send_status (sends ex_done_store ! 1) = ''failed'' \<and>
   length (sends ex_done_store) = 2 \<and>
   dispatchJob True ex_gen polls_ok False True 300 ''j1'' ''hello'' ''text'' ex_done_store [] =
     Some (ex_done_store\<lparr>jobs :=
             [ex_running\<lparr>job_status := ''completed'', job_completed_at := Some 300\<rparr>]\<rparr>, []) \<and>
   dispatchJob True ex_gen polls_ok True False 300 ''j1'' ''hello'' ''text'' ex_done_store [] =
     Some (ex_done_store, []) \<and>
   map job_status (jobs ex_done_store) = [''running''] \<and>
   dispatchJob True ex_gen polls_refused True True 300 ''j1'' ''hello'' ''text''
       (ex_sub_store\<lparr>jobs := [ex_running]\<rparr>) [] =
     Some (ex_sub_store\<lparr>jobs := [ex_running\<lparr>job_status := ''completed'',
                                               job_completed_at := Some 300\<rparr>],
                         sends := [ex_send\<lparr>send_id := ''s''\<rparr>]\<rparr>,
           [ex_task\<lparr>SendID := ''s''\<rparr>])"
  by (simp add: dispatchJob_eq ex_running_store_def ex_sends_store_def ex_done_store_def
      ex_send_def ex_sent_def ex_running_def ex_job_def set_job_status_def select_subscribers_def
      polls_ok_def polls_refused_def finalize_def discarded_def count_failed_def ex_sub_store_def
      ex_gen_def insert_send_def ex_task_def taskQueueSize_def)

text \<open>
  Claim C3, as amended. When the subscriber query fails, the dispatcher issues the
  update of the job to \<open>failed\<close> with the completion time and returns: the sends
  table and the task queue are as they were, so no send is created. When the store
  executes the update every row of the job is \<open>failed\<close> with the completion time;
  when the store refuses it, the error is discarded and the job is left as it was.
  The statements of the dispatcher taken one at a time do the same.
\<close>

theorem enumeration_failure_fails_job:
  "dispatchJob False gen polls count_ok upd_ok now jid subject body d q =
     Some (if upd_ok then set_job_status ''failed'' now jid d else d, q) \<and>
   sends (if upd_ok then set_job_status ''failed'' now jid d else d) = sends d \<and>
   subscribers (if upd_ok then set_job_status ''failed'' now jid d else d) = subscribers d \<and>
   jobs (if upd_ok then set_job_status ''failed'' now jid d else d) =
     (if upd_ok
      then map (\<lambda>j. if job_id j = jid
               then j\<lparr>job_status := ''failed'', job_completed_at := Some now\<rparr> else j) (jobs d)
      else jobs d) \<and>
   dispatch_step sendID now False (Enumerating jid subject body) d q = (Some (Failing jid), d, q) \<and>
   dispatch_step sendID now upd_ok (Failing jid) d q =
     (None, if upd_ok then set_job_status ''failed'' now jid d else d, q)"
  by (simp add: dispatchJob_def set_job_status_def discarded_def)

theorem enumeration_failure_fails_job_witness:
  "dispatchJob False ex_gen polls_ok True True 300 ''j1'' ''hello'' ''text'' ex_sends_store [ex_task] =
     Some (ex_sends_store\<lparr>jobs := [ex_running\<lparr>job_status := ''failed'', job_completed_at := Some 300\<rparr>]\<rparr>,
           [ex_task]) \<and>
   sends (set_job_status ''failed'' 300 ''j1'' ex_sends_store) = sends ex_sends_store"
  using enumeration_failure_fails_job [of ex_gen polls_ok True True 300 "''j1''" "''hello''" "''text''"
      ex_sends_store "[ex_task]" "''s9''"]
  by (simp add: ex_sends_store_def ex_send_def ex_running_def ex_job_def set_job_status_def)

text \<open>
  Claim C3 as stated fails. The source discards the error of the update that sets the
  job to \<open>failed\<close>: when the subscriber query fails and the store refuses that update
  too, the dispatcher stops and the job is still \<open>running\<close>.
\<close>

theorem refused_update_leaves_job_running:
  "dispatchJob False ex_gen polls_ok True False 300 ''j1'' ''hello'' ''text'' ex_running_store [] =
     Some (ex_running_store, []) \<and>
   map job_status (jobs ex_running_store) = [''running'']"
  by (simp add: dispatchJob_def discarded_def ex_running_store_def ex_running_def ex_job_def)


section \<open>Properties of the workers\<close>

lemma worker_begin_sends:
  "sends (worker_begin ok1 t d) =
     (if ok1
      then map (\<lambda>s. if send_id s = SendID t
                 then s\<lparr>send_status := ''sending'', send_attempts := sql_succ (send_attempts s)\<rparr>
                 else s) (sends d)
      else sends d)"
  by (simp add: worker_begin_def discarded_def mark_sending_def)

lemma worker_end_sends:
  "sends (worker_end ok2 now t err d) =
     (if ok2
      then map (\<lambda>s. if send_id s = SendID t
                 then (case err of
                         None \<Rightarrow> s\<lparr>send_status := ''sent'', send_sent_at := Some now\<rparr>
                       | Some e \<Rightarrow> s\<lparr>send_status := ''failed'', send_last_error := Some e\<rparr>)
                 else s) (sends d)
      else sends d)"
  by (cases err) (simp_all add: worker_end_def discarded_def mark_sent_def mark_failed_def)

lemma worker_task_fst:
  "fst (worker_task send now ok1 ok2 t (d, w)) =
     worker_end ok2 now t (fst (send t (worker_begin ok1 t d) w)) (worker_begin ok1 t d)"
  by (simp add: worker_task_def Let_def)

lemma worker_task_snd:
  "snd (worker_task send now ok1 ok2 t (d, w)) = snd (send t (worker_begin ok1 t d) w)"
  by (simp add: worker_task_def Let_def)

lemma worker_begin_jobs:
  "jobs (worker_begin ok1 t d) = jobs d \<and> subscribers (worker_begin ok1 t d) = subscribers d"
  by (simp add: worker_begin_def discarded_def mark_sending_def)

lemma worker_end_jobs:
  "jobs (worker_end ok2 now t err d) = jobs d \<and>
   subscribers (worker_end ok2 now t err d) = subscribers d"
  by (cases err) (simp_all add: worker_end_def discarded_def mark_sent_def mark_failed_def)

lemma doSend_mock: "getenv ''SMTP_HOST'' = '''' \<Longrightarrow> doSend getenv SendMail t w = (None, w)"
  by (simp add: doSend_def Let_def)

lemma worker_append:
  "worker send (ts @ ts') dw = worker send ts' (worker send ts dw)"
proof (induction ts arbitrary: dw)
  case Nil
  show ?case by simp
next
  case (Cons a ts)
  obtain t now ok1 ok2 where a: "a = (t, now, ok1, ok2)" by (cases a) auto
  show ?case using Cons.IH by (simp add: a)
qed

text \<open>
  Claim C8, as amended. For a task the worker first issues the update that sets the
  send row of the task to \<open>sending\<close> and adds one to its attempt counter (one
  after a counter of zero; past the largest 64-bit integer the store keeps a
  floating-point value); then it calls the send collaborator, once, on the store this
  update has left: the world after the task is the world after that one call; and
  last it issues the update that sets the row to \<open>sent\<close> with the sent time when the
  call succeeded, and to \<open>failed\<close> with the error text when it failed. The source
  discards the errors of the three updates, so an update that the store refuses
  leaves the rows as they were, and the worker goes on all the same. The jobs and the
  subscribers are not touched, and whatever the outcome of the call the worker goes on
  with the tasks that follow. With \<^verbatim>\<open>doSend\<close> as the collaborator the world after
  the task is the world after one call of \<^verbatim>\<open>doSend\<close>, which without \<^verbatim>\<open>SMTP_HOST\<close>
  succeeds and leaves the world as it is.
\<close>

theorem worker_task_effect:
  "sends (worker_begin ok1 t d) =
     (if ok1
      then map (\<lambda>s. if send_id s = SendID t
                 then s\<lparr>send_status := ''sending'', send_attempts := sql_succ (send_attempts s)\<rparr>
                 else s) (sends d)
      else sends d) \<and>
   sql_succ (SqlInteger 0) = SqlInteger 1 \<and>
   snd (worker_task send now ok1 ok2 t (d, w)) = snd (send t (worker_begin ok1 t d) w) \<and>
   sends (fst (worker_task send now ok1 ok2 t (d, w))) =
     (if ok2
      then map (\<lambda>s. if send_id s = SendID t
                 then (case fst (send t (worker_begin ok1 t d) w) of
                         None \<Rightarrow> s\<lparr>send_status := ''sent'', send_sent_at := Some now\<rparr>
                       | Some e \<Rightarrow> s\<lparr>send_status := ''failed'', send_last_error := Some e\<rparr>)
                 else s) (sends (worker_begin ok1 t d))
      else sends (worker_begin ok1 t d)) \<and>
   jobs (fst (worker_task send now ok1 ok2 t (d, w))) = jobs d \<and>
   subscribers (fst (worker_task send now ok1 ok2 t (d, w))) = subscribers d \<and>
   worker send ((t, now, ok1, ok2) # ts) (d, w) =
     worker send ts (worker_task send now ok1 ok2 t (d, w)) \<and>
   worker send (ts @ ts') (d, w) = worker send ts' (worker send ts (d, w)) \<and>
   worker_task (\<lambda>t d. doSend getenv SendMail t) now ok1 ok2 t (d, w) =
     (worker_end ok2 now t (fst (doSend getenv SendMail t w)) (worker_begin ok1 t d),
      snd (doSend getenv SendMail t w)) \<and>
   (getenv ''SMTP_HOST'' = '''' \<longrightarrow> doSend getenv SendMail t w = (None, w))"
proof -
  have c2: "sql_succ (SqlInteger 0) = SqlInteger 1"
    by (simp add: sql_succ_def)
  have c4: "sends (fst (worker_task send now ok1 ok2 t (d, w))) =
     (if ok2
      then map (\<lambda>s. if send_id s = SendID t
                 then (case fst (send t (worker_begin ok1 t d) w) of
                         None \<Rightarrow> s\<lparr>send_status := ''sent'', send_sent_at := Some now\<rparr>
                       | Some e \<Rightarrow> s\<lparr>send_status := ''failed'', send_last_error := Some e\<rparr>)
                 else s) (sends (worker_begin ok1 t d))
      else sends (worker_begin ok1 t d))"
    by (simp only: worker_task_fst worker_end_sends)
  have c5: "jobs (fst (worker_task send now ok1 ok2 t (d, w))) = jobs d"
    by (simp only: worker_task_fst worker_end_jobs worker_begin_jobs)
  have c6: "subscribers (fst (worker_task send now ok1 ok2 t (d, w))) = subscribers d"
    by (simp only: worker_task_fst worker_end_jobs worker_begin_jobs)
  have c7: "worker send ((t, now, ok1, ok2) # ts) (d, w) =
     worker send ts (worker_task send now ok1 ok2 t (d, w))"
    by simp
  have c9: "worker_task (\<lambda>t d. doSend getenv SendMail t) now ok1 ok2 t (d, w) =
     (worker_end ok2 now t (fst (doSend getenv SendMail t w)) (worker_begin ok1 t d),
      snd (doSend getenv SendMail t w))"
    by (simp add: worker_task_def Let_def)
  have c10: "getenv ''SMTP_HOST'' = '''' \<longrightarrow> doSend getenv SendMail t w = (None, w)"
    by (simp add: doSend_mock)
  from worker_begin_sends c2 worker_task_snd c4 c5 c6 c7 worker_append c9 c10
  show ?thesis by (intro conjI)
qed

theorem worker_task_effect_witness:
  "sends (worker_begin True ex_task ex_sends_store) =
     [ex_send\<lparr>send_status := ''sending'', send_attempts := SqlInteger 1\<rparr>,
      ex_send\<lparr>send_id := ''s2'', send_status := ''failed''\<rparr>] \<and>
   worker_task send_ok 130 True True ex_task (ex_sends_store, []) =
     (ex_sends_store\<lparr>sends :=
        [ex_send\<lparr>send_status := ''sent'', send_attempts := SqlInteger 1, send_sent_at := Some 130\<rparr>,
         ex_send\<lparr>send_id := ''s2'', send_status := ''failed''\<rparr>]\<rparr>,
      [(''a@example.com'', [''sending''])]) \<and>
   worker_task send_refused 130 True True ex_task (ex_sends_store, []) =
     (ex_sends_store\<lparr>sends :=
        [ex_send\<lparr>send_status := ''failed'', send_attempts := SqlInteger 1,
                 send_last_error := Some ''connection refused''\<rparr>,
         ex_send\<lparr>send_id := ''s2'', send_status := ''failed''\<rparr>]\<rparr>,
      [(''a@example.com'', [''sending''])]) \<and>
   worker send_refused [(ex_task, 130, True, True), (ex_task2, 131, True, True)]
       (ex_sends_store\<lparr>sends := [ex_send, ex_send\<lparr>send_id := ''s2''\<rparr>]\<rparr>, []) =
     (ex_sends_store\<lparr>sends :=
        [ex_send\<lparr>send_status := ''failed'', send_attempts := SqlInteger 1,
                 send_last_error := Some ''connection refused''\<rparr>,
         ex_send\<lparr>send_id := ''s2'', send_status := ''failed'', send_attempts := SqlInteger 1,
                 send_last_error := Some ''connection refused''\<rparr>]\<rparr>,
      [(''a@example.com'', [''sending'']), (''b@example.com'', [''sending''])]) \<and>
   ex_getenv ''SMTP_HOST'' = '''' \<and>
   worker_task (\<lambda>t d. doSend ex_getenv ex_SendMail t) 130 True True ex_task (ex_sends_store, []) =
     (ex_sends_store\<lparr>sends :=
        [ex_send\<lparr>send_status := ''sent'', send_attempts := SqlInteger 1, send_sent_at := Some 130\<rparr>,
         ex_send\<lparr>send_id := ''s2'', send_status := ''failed''\<rparr>]\<rparr>,
      [])"
  using worker_task_effect [of True ex_task ex_sends_store send_ok 130 True "[]" "[]" "[]"
      ex_getenv ex_SendMail]
    worker_task_effect [of True ex_task ex_sends_store send_refused 130 True "[]" "[]" "[]"
      ex_getenv ex_SendMail]
    worker_task_effect [of True ex_task "ex_sends_store\<lparr>sends := [ex_send, ex_send\<lparr>send_id := ''s2''\<rparr>]\<rparr>"
      send_refused 130 True "[]" "[(ex_task2, 131, True, True)]" "[]" ex_getenv ex_SendMail]
  by (simp add: ex_sends_store_def ex_send_def ex_task_def ex_task2_def send_ok_def
      send_refused_def seen_status_def worker_task_def worker_begin_def worker_end_def
      discarded_def mark_sending_def mark_sent_def mark_failed_def sql_succ_def
      ex_getenv_def ex_SendMail_def)

text \<open>
  Claim C8 as stated fails. The source discards the errors of the worker's updates:
  when the store refuses them, the mail is handed over for delivery and the worker
  goes on, but the send row of the task is still \<open>queued\<close> with no attempt counted;
  and when only the last update is refused the row stays \<open>sending\<close> after a
  successful delivery.
\<close>

theorem refused_updates_leave_send_queued:
  "worker_task send_ok 130 False False ex_task (ex_sends_store, []) =
     (ex_sends_store, [(''a@example.com'', [''queued''])]) \<and>
   send_id (sends ex_sends_store ! 0) = ''s1'' \<and> SendID ex_task = ''s1'' \<and>
   send_status (sends ex_sends_store ! 0) = ''queued'' \<and>
   send_attempts (sends ex_sends_store ! 0) = SqlInteger 0 \<and>
   worker_task send_ok 130 True False ex_task (ex_sends_store, []) =
     (ex_sends_store\<lparr>sends :=
        [ex_send\<lparr>send_status := ''sending'', send_attempts := SqlInteger 1\<rparr>,
         ex_send\<lparr>send_id := ''s2'', send_status := ''failed''\<rparr>]\<rparr>,
      [(''a@example.com'', [''sending''])])"
  by (simp add: ex_sends_store_def ex_send_def ex_task_def send_ok_def
      seen_status_def worker_task_def worker_begin_def worker_end_def
      discarded_def mark_sending_def mark_sent_def mark_failed_def sql_succ_def)


section \<open>Properties of the job-enqueue handler\<close>

lemma scheduled_ts_Some:
  "scheduled_ts P now s \<noteq> None \<longleftrightarrow> (s = '''' \<or> P s \<noteq> None \<or> ParseInt s \<noteq> None)"
  by (auto simp: scheduled_ts_def split: option.splits)

lemma request_valid_Some:
  "request_valid T P (Some req) \<longleftrightarrow>
     T (req_subject req) \<noteq> '''' \<and> T (req_body req) \<noteq> '''' \<and>
     scheduled_ts P now (req_scheduled_at req) \<noteq> None"
  using scheduled_ts_Some [of P now "req_scheduled_at req"]
  by (simp add: request_valid_def)

text \<open>
  Claim C10, as amended. The handler inserts a job row, with status \<open>pending\<close>, the
  trimmed subject and body and the scheduled time (the current time when
  \<^verbatim>\<open>scheduled_at\<close> is empty), and answers with the id and the time, if and only if the
  request is valid and the store accepts the insert; otherwise it answers with an error
  and the store is unchanged.
\<close>

theorem schedule_inserts_iff_valid_and_stored:
  "(request_valid TrimSpace ParseRFC3339 decoded \<and> exec_ok \<and>
      new_id \<notin> set (map job_id (jobs d)) \<longrightarrow>
      (\<exists>req ts. decoded = Some req \<and>
         scheduled_ts ParseRFC3339 now_ts (req_scheduled_at req) = Some ts \<and>
         (req_scheduled_at req = '''' \<longrightarrow> ts = now_ts) \<and>
         scheduleJobHandler TrimSpace ParseRFC3339 decoded now_ts new_id now_created exec_ok d =
           (JSON_OK new_id ts,
            d\<lparr>jobs := jobs d @
              [\<lparr>job_id = new_id, job_subject = TrimSpace (req_subject req),
                job_body = TrimSpace (req_body req), job_scheduled_at = ts,
                job_status = ''pending'', job_created_at = now_created,
                job_completed_at = None\<rparr>]\<rparr>))) \<and>
   (\<not> (request_valid TrimSpace ParseRFC3339 decoded \<and> exec_ok \<and>
        new_id \<notin> set (map job_id (jobs d))) \<longrightarrow>
      snd (scheduleJobHandler TrimSpace ParseRFC3339 decoded now_ts new_id now_created exec_ok d) = d \<and>
      (\<exists>code msg.
         fst (scheduleJobHandler TrimSpace ParseRFC3339 decoded now_ts new_id now_created exec_ok d) =
           HTTP_Error code msg))"
proof (rule conjI; rule impI)
  assume a: "request_valid TrimSpace ParseRFC3339 decoded \<and> exec_ok \<and>
      new_id \<notin> set (map job_id (jobs d))"
  then obtain req where req: "decoded = Some req"
    by (cases decoded) (simp_all add: request_valid_def)
  with a have v: "TrimSpace (req_subject req) \<noteq> ''''" "TrimSpace (req_body req) \<noteq> ''''"
      "scheduled_ts ParseRFC3339 now_ts (req_scheduled_at req) \<noteq> None"
    by (simp_all add: request_valid_Some [of _ _ _ now_ts])
  then obtain ts where ts: "scheduled_ts ParseRFC3339 now_ts (req_scheduled_at req) = Some ts"
    by blast
  have e: "req_scheduled_at req = '''' \<longrightarrow> ts = now_ts"
    using ts by (auto simp: scheduled_ts_def)
  have "scheduleJobHandler TrimSpace ParseRFC3339 decoded now_ts new_id now_created exec_ok d =
           (JSON_OK new_id ts,
            d\<lparr>jobs := jobs d @
              [\<lparr>job_id = new_id, job_subject = TrimSpace (req_subject req),
                job_body = TrimSpace (req_body req), job_scheduled_at = ts,
                job_status = ''pending'', job_created_at = now_created,
                job_completed_at = None\<rparr>]\<rparr>)"
    using a req v ts by (simp add: scheduleJobHandler_def insert_job_def)
  with req ts e show "\<exists>req ts. decoded = Some req \<and>
         scheduled_ts ParseRFC3339 now_ts (req_scheduled_at req) = Some ts \<and>
         (req_scheduled_at req = '''' \<longrightarrow> ts = now_ts) \<and>
         scheduleJobHandler TrimSpace ParseRFC3339 decoded now_ts new_id now_created exec_ok d =
           (JSON_OK new_id ts,
            d\<lparr>jobs := jobs d @
              [\<lparr>job_id = new_id, job_subject = TrimSpace (req_subject req),
                job_body = TrimSpace (req_body req), job_scheduled_at = ts,
                job_status = ''pending'', job_created_at = now_created,
                job_completed_at = None\<rparr>]\<rparr>)"
    by blast
next
  assume n: "\<not> (request_valid TrimSpace ParseRFC3339 decoded \<and> exec_ok \<and>
        new_id \<notin> set (map job_id (jobs d)))"
  have "\<exists>code msg.
      scheduleJobHandler TrimSpace ParseRFC3339 decoded now_ts new_id now_created exec_ok d =
        (HTTP_Error code msg, d)"
  proof (cases decoded)
    case None
    then show ?thesis by (simp add: scheduleJobHandler_def)
  next
    case (Some req)
    note dec = this
    show ?thesis
    proof (cases "scheduled_ts ParseRFC3339 now_ts (req_scheduled_at req)")
      case None
      with dec show ?thesis by (simp add: scheduleJobHandler_def Let_def)
    next
      case (Some ts)
      with n dec
      have "TrimSpace (req_subject req) = [] \<or> TrimSpace (req_body req) = [] \<or>
            \<not> exec_ok \<or> new_id \<in> set (map job_id (jobs d))"
        by (auto simp: request_valid_Some [of _ _ _ now_ts])
      with Some dec show ?thesis
        by (auto simp: scheduleJobHandler_def insert_job_def Let_def)
    qed
  qed
  then show "snd (scheduleJobHandler TrimSpace ParseRFC3339 decoded now_ts new_id now_created exec_ok d) = d \<and>
      (\<exists>code msg.
         fst (scheduleJobHandler TrimSpace ParseRFC3339 decoded now_ts new_id now_created exec_ok d) =
           HTTP_Error code msg)"
    by auto
qed

theorem schedule_inserts_iff_valid_and_stored_witness:
  "request_valid ex_TrimSpace ex_ParseRFC3339 (Some ex_req) \<and>
   ''j2'' \<notin> set (map job_id (jobs ex_store)) \<and>
   scheduleJobHandler ex_TrimSpace ex_ParseRFC3339 (Some ex_req) 500 ''j2'' 501 True ex_store =
     (JSON_OK ''j2'' 1700000000,
      ex_store\<lparr>jobs := [ex_job,
        \<lparr>job_id = ''j2'', job_subject = ''hello'', job_body = ''text'',
         job_scheduled_at = 1700000000, job_status = ''pending'', job_created_at = 501,
         job_completed_at = None\<rparr>]\<rparr>) \<and>
   \<not> request_valid ex_TrimSpace ex_ParseRFC3339 (Some (ex_req\<lparr>req_scheduled_at := ''soon''\<rparr>)) \<and>
   scheduleJobHandler ex_TrimSpace ex_ParseRFC3339 (Some (ex_req\<lparr>req_scheduled_at := ''soon''\<rparr>))
       500 ''j2'' 501 True ex_store =
     (HTTP_Error 400 ''invalid scheduled_at'', ex_store)"
  using schedule_inserts_iff_valid_and_stored [of ex_TrimSpace ex_ParseRFC3339 "Some ex_req" True
      "''j2''" ex_store 500 501]
    schedule_inserts_iff_valid_and_stored [of ex_TrimSpace ex_ParseRFC3339
      "Some (ex_req\<lparr>req_scheduled_at := ''soon''\<rparr>)" True "''j2''" ex_store 500 501]
  by (simp add: request_valid_def ex_TrimSpace_def ex_ParseRFC3339_def ex_req_def ex_store_def
      ex_job_def scheduleJobHandler_def scheduled_ts_def insert_job_def ParseInt_def)

text \<open>
  Claim C10 as stated fails: a valid request whose insert the store refuses gets the
  answer \<^verbatim>\<open>db error\<close>, and no job row is inserted.
\<close>

theorem valid_request_not_stored:
  "request_valid ex_TrimSpace ex_ParseRFC3339 (Some ex_req) \<and>
   scheduleJobHandler ex_TrimSpace ex_ParseRFC3339 (Some ex_req) 500 ''j2'' 501 False ex_store =
     (HTTP_Error 500 ''db error'', ex_store)"
  by (simp add: request_valid_def ex_TrimSpace_def ex_ParseRFC3339_def ex_req_def
      scheduleJobHandler_def scheduled_ts_def insert_job_def ParseInt_def)


section \<open>Properties of the running system\<close>

text \<open>
  The statements of a dispatcher, taken one at a time, are those of \<^verbatim>\<open>dispatchJob\<close>:
  walking through the insert loop gives the store and the tasks of \<open>insert_sends\<close>.
\<close>

lemma dispatch_steps_insert_sends:
  "dispatch_steps gen k (length rows) (Inserting jid subject body rows tasks) d q =
     (Some (Inserting jid subject body []
        (snd (insert_sends gen k jid subject body rows d tasks))),
      fst (insert_sends gen k jid subject body rows d tasks), q)"
proof (induction rows arbitrary: k d tasks)
  case Nil
  show ?case by simp
next
  case (Cons r rows)
  obtain sid email where r: "r = (sid, email)" by (cases r) auto
  obtain sendID now ok where g: "gen k = (sendID, now, ok)" by (cases "gen k") auto
  show ?case
  proof (cases "insert_send ok sendID jid sid email now d")
    case None
    with r g Cons.IH show ?thesis by simp
  next
    case (Some d')
    with r g Cons.IH show ?thesis by simp
  qed
qed


lemma status_of_cong: "jobs d' = jobs d \<Longrightarrow> status_of d' = status_of d"
  by (rule ext) (simp add: status_of_def)

lemma jobs_wf_cong: "jobs d' = jobs d \<Longrightarrow> jobs_wf d' = jobs_wf d"
  by (simp add: jobs_wf_def)

lemma map_of_status_update:
  assumes "\<And>j. job_id (g j) = job_id j"
    and "\<And>j. job_id j = jid \<Longrightarrow> job_status (g j) = st"
    and "\<And>j. job_id j \<noteq> jid \<Longrightarrow> g j = j"
  shows "map_of (map (\<lambda>j. (job_id j, job_status j)) (map g js)) k =
   (if k = jid then map_option (\<lambda>_. st) (map_of (map (\<lambda>j. (job_id j, job_status j)) js) k)
    else map_of (map (\<lambda>j. (job_id j, job_status j)) js) k)"
proof (induction js)
  case Nil
  show ?case by simp
next
  case (Cons j js)
  show ?case
  proof (cases "job_id j = jid")
    case True
    with Cons assms(1) [of j] assms(2) [of j] show ?thesis by (auto split: if_splits)
  next
    case False
    with Cons assms(3) [of j] show ?thesis by (auto split: if_splits)
  qed
qed

lemma set_job_status_jobs':
  "jobs (set_job_status st now jid d) =
     map (\<lambda>j. if job_id j = jid then j\<lparr>job_status := st, job_completed_at := Some now\<rparr> else j) (jobs d)"
  by (simp add: set_job_status_def)

lemma status_of_mark_running:
  "status_of (fst (mark_running jid d)) k =
     (if k = jid then map_option (\<lambda>_. ''running'') (status_of d k) else status_of d k)"
  unfolding status_of_def mark_running_jobs
  by (rule map_of_status_update) simp_all

lemma status_of_set_job_status:
  "status_of (set_job_status st now jid d) k =
     (if k = jid then map_option (\<lambda>_. st) (status_of d k) else status_of d k)"
  unfolding status_of_def set_job_status_jobs'
  by (rule map_of_status_update) simp_all

lemma job_ids_mark_running: "map job_id (jobs (fst (mark_running jid d))) = map job_id (jobs d)"
  by (simp add: mark_running_def o_def if_distrib [of job_id] cong: if_cong)

lemma job_ids_set_job_status: "map job_id (jobs (set_job_status st now jid d)) = map job_id (jobs d)"
  by (simp add: set_job_status_def o_def if_distrib [of job_id] cong: if_cong)

lemma status_of_in_jobs:
  "status_of d k = Some st \<Longrightarrow> \<exists>j \<in> set (jobs d). job_id j = k \<and> job_status j = st"
  unfolding status_of_def by (drule map_of_SomeD) auto

lemma in_jobs_status_of:
  "distinct (map job_id (jobs d)) \<Longrightarrow> j \<in> set (jobs d) \<Longrightarrow> status_of d (job_id j) = Some (job_status j)"
  unfolding status_of_def
  by (rule map_of_is_SomeI) (auto simp: o_def)

lemma status_of_None: "status_of d k = None \<longleftrightarrow> k \<notin> set (map job_id (jobs d))"
  by (simp add: status_of_def map_of_eq_None_iff o_def image_image)

lemma remove_nth_distinct:
  assumes "i < length xs" and "distinct (map f xs)"
  shows "distinct (map f (take i xs @ drop (Suc i) xs))"
    and "\<forall>x \<in> set (take i xs @ drop (Suc i) xs). f x \<noteq> f (xs ! i)"
proof -
  have "xs = take i xs @ xs ! i # drop (Suc i) xs"
    using assms(1) by (rule id_take_nth_drop)
  then have "distinct (map f (take i xs @ xs ! i # drop (Suc i) xs))"
    using assms(2) by simp
  then have d: "distinct (map f (take i xs @ drop (Suc i) xs))"
    and n: "f (xs ! i) \<notin> f ` set (take i xs)" "f (xs ! i) \<notin> f ` set (drop (Suc i) xs)"
    by auto
  from d show "distinct (map f (take i xs @ drop (Suc i) xs))" .
  from n show "\<forall>x \<in> set (take i xs @ drop (Suc i) xs). f x \<noteq> f (xs ! i)"
    by (metis Un_iff image_eqI set_append)
qed

lemma remove_nth_subset: "set (take i xs @ drop (Suc i) xs) \<subseteq> set xs"
  using set_take_subset [of i xs] set_drop_subset [of "Suc i" xs] by auto

lemma update_same_key:
  "i < length xs \<Longrightarrow> f y = f (xs ! i) \<Longrightarrow> map f (xs[i := y]) = map f xs"
  by (simp add: map_update list_update_same_conv)

lemma dispatch_step_jobs:
  assumes "dispatch_step sendID now ok pc d q = (pc', d', q')"
  shows "(\<forall>p. pc' = Some p \<longrightarrow> disp_job p = disp_job pc \<and> jobs d' = jobs d) \<and>
         (pc' = None \<longrightarrow> d' = d \<or>
            (\<exists>st. terminal_job_status st \<and> d' = set_job_status st now (disp_job pc) d))"
  using assms
  by (induction sendID now ok pc d q rule: dispatch_step.induct)
    (auto simp: insert_send_def terminal_job_status_def discarded_def split: if_splits)

lemma work_step_jobs:
  "work_step now ok err pc d q = (pc', d', q') \<Longrightarrow> jobs d' = jobs d"
  by (induction now ok err pc d q rule: work_step.induct)
    (auto simp: worker_begin_def worker_end_def mark_sending_def mark_sent_def mark_failed_def
      discarded_def split: option.splits)

lemma schedule_jobs:
  "jobs (snd (scheduleJobHandler T P dec n1 new_id n2 ok d)) = jobs d \<or>
   (new_id \<notin> set (map job_id (jobs d)) \<and>
    (\<exists>j. job_id j = new_id \<and> job_status j = ''pending'' \<and>
          jobs (snd (scheduleJobHandler T P dec n1 new_id n2 ok d)) = jobs d @ [j]))"
  by (auto simp: scheduleJobHandler_def insert_job_def Let_def split: option.splits)

lemma subscribe_jobs:
  "insert_subscriber ok sid email now d = Some d' \<Longrightarrow> jobs d' = jobs d"
  by (auto simp: insert_subscriber_def split: if_splits)

lemma status_of_append:
  assumes "jobs d' = jobs d @ [j]" and "job_id j \<notin> set (map job_id (jobs d))"
  shows "status_of d' k = (if k = job_id j then Some (job_status j) else status_of d k)"
proof -
  have "map_of (map (\<lambda>j. (job_id j, job_status j)) (jobs d)) (job_id j) = None"
    using assms(2) by (simp add: map_of_eq_None_iff o_def image_image)
  then show ?thesis
    using assms(1) by (auto simp: status_of_def map_add_def split: option.splits)
qed

lemma jobs_wf_set_job_status:
  "jobs_wf d \<Longrightarrow> valid_job_status st \<Longrightarrow> jobs_wf (set_job_status st now jid d)"
  unfolding jobs_wf_def job_ids_set_job_status
  by (auto simp: set_job_status_def)

lemma jobs_wf_mark_running:
  "jobs_wf d \<Longrightarrow> jobs_wf (fst (mark_running jid d))"
  unfolding jobs_wf_def job_ids_mark_running
  by (auto simp: mark_running_def valid_job_status_def)

lemma terminal_valid: "terminal_job_status st \<Longrightarrow> valid_job_status st"
  by (auto simp: terminal_job_status_def valid_job_status_def)

lemma job_moves_same: "jobs d' = jobs d \<Longrightarrow> job_moves d d'"
  using status_of_cong [of d' d] by (simp add: job_moves_def split: option.splits)

lemma jobs_inv_same:
  assumes "jobs_inv s" and "jobs (db s') = jobs (db s)" and "claimable s' = claimable s"
    and "dispatched s' = dispatched s"
  shows "jobs_inv s'"
  using assms status_of_cong [of "db s'" "db s"] jobs_wf_cong [of "db s'" "db s"]
  by (simp add: jobs_inv_def)

lemma step_Subscribe:
  assumes "jobs_inv s"
  shows "jobs_inv (step T P (Subscribe sid email now ok) s) \<and>
         job_moves (db s) (db (step T P (Subscribe sid email now ok) s))"
proof (cases "insert_subscriber ok sid email now (db s)")
  case None
  then show ?thesis using assms by (simp add: job_moves_same)
next
  case (Some d')
  then have j: "jobs d' = jobs (db s)" by (rule subscribe_jobs)
  have "jobs_inv (s\<lparr>db := d'\<rparr>)"
    using assms by (rule jobs_inv_same) (simp_all add: j claimable_def dispatched_def)
  then show ?thesis using Some j by (simp add: job_moves_same)
qed

lemma step_Work:
  assumes "jobs_inv s"
  shows "jobs_inv (step T P (Work i now ok err) s) \<and>
         job_moves (db s) (db (step T P (Work i now ok err) s))"
proof (cases "i < length (workers s)")
  case False
  then show ?thesis using assms by (simp add: job_moves_same)
next
  case True
  obtain pc d' q' where w: "work_step now ok err (workers s ! i) (db s) (taskQ s) = (pc, d', q')"
    by (cases "work_step now ok err (workers s ! i) (db s) (taskQ s)") auto
  then have j: "jobs d' = jobs (db s)" by (rule work_step_jobs)
  have "jobs_inv (s\<lparr>db := d', taskQ := q', workers := (workers s)[i := pc]\<rparr>)"
    using assms by (rule jobs_inv_same) (simp_all add: j claimable_def dispatched_def)
  then show ?thesis using True w j by (simp add: job_moves_same)
qed

lemma step_Schedule:
  assumes "jobs_inv s"
  shows "jobs_inv (step T P (Schedule dec n1 new_id n2 ok) s) \<and>
         job_moves (db s) (db (step T P (Schedule dec n1 new_id n2 ok) s))"
proof -
  let ?d' = "snd (scheduleJobHandler T P dec n1 new_id n2 ok (db s))"
  let ?s' = "s\<lparr>db := ?d'\<rparr>"
  have cd: "claimable ?s' = claimable s" "dispatched ?s' = dispatched s"
    by (simp_all add: claimable_def dispatched_def)
  consider (same) "jobs ?d' = jobs (db s)"
    | (new) j where "new_id \<notin> set (map job_id (jobs (db s)))" "job_id j = new_id"
        "job_status j = ''pending''" "jobs ?d' = jobs (db s) @ [j]"
    using schedule_jobs [of T P dec n1 new_id n2 ok "db s"] by blast
  then have "jobs_inv ?s' \<and> job_moves (db s) ?d'"
  proof cases
    case same
    have "jobs_inv ?s'"
      using assms by (rule jobs_inv_same) (simp_all add: same cd)
    then show ?thesis using same by (simp add: job_moves_same)
  next
    case new
    have st: "status_of ?d' k = (if k = new_id then Some ''pending'' else status_of (db s) k)" for k
      using status_of_append [of ?d' "db s" j k] new by simp
    have none: "status_of (db s) new_id = None"
      using new(1) by (simp add: status_of_None)
    have wf: "jobs_wf ?d'"
      using assms new by (simp add: jobs_inv_def jobs_wf_def valid_job_status_def)
    have "jobs_inv ?s'"
      unfolding jobs_inv_def cd using assms wf none
      by (auto simp: jobs_inv_def st)
    moreover have "job_moves (db s) ?d'"
      unfolding job_moves_def using none by (auto simp: st split: option.splits)
    ultimately show ?thesis ..
  qed
  then show ?thesis by simp
qed

lemma select_due_fst:
  "map fst (select_due now d) =
     map job_id (filter (\<lambda>j. job_status j = ''pending'' \<and> job_scheduled_at j \<le> now) (jobs d))"
  by (simp add: select_due_def o_def)

lemma step_Tick:
  assumes "jobs_inv s"
  shows "jobs_inv (step T P (Tick now ok) s) \<and>
         job_moves (db s) (db (step T P (Tick now ok) s))"
proof (cases "sched s = Sleeping \<and> ok")
  case False
  then have "step T P (Tick now ok) s = s"
    by (cases "sched s") auto
  then show ?thesis using assms by (simp add: job_moves_same)
next
  case True
  let ?s' = "s\<lparr>sched := Claiming (select_due now (db s))\<rparr>"
  have e: "step T P (Tick now ok) s = ?s'"
    using True by simp
  have wf: "jobs_wf (db s)" using assms by (simp add: jobs_inv_def)
  then have dist: "distinct (map job_id (jobs (db s)))" by (simp add: jobs_wf_def)
  have c: "claimable ?s' = map fst (select_due now (db s))"
    by (simp add: claimable_def)
  have d1: "distinct (claimable ?s')"
    unfolding c select_due_fst using dist by (rule distinct_map_filter)
  have p: "status_of (db s) k = Some ''pending''" if "k \<in> set (claimable ?s')" for k
  proof -
    from that obtain j where "j \<in> set (jobs (db s))" "job_id j = k" "job_status j = ''pending''"
      unfolding c select_due_fst by auto
    then show ?thesis using in_jobs_status_of [OF dist, of j] by simp
  qed
  have "jobs_inv ?s'"
    unfolding jobs_inv_def using assms d1 p
    by (simp add: jobs_inv_def dispatched_def)
  then show ?thesis unfolding e by (simp add: job_moves_same)
qed

lemma job_edge_claim: "job_edge ''pending'' ''running''"
  by (simp add: job_edge_def)

lemma job_edge_finish: "terminal_job_status st \<Longrightarrow> job_edge ''running'' st"
  by (simp add: job_edge_def)

lemma job_moves_update:
  assumes "status_of d jid = Some a" and "job_edge a b"
    and "\<And>k. status_of d' k = (if k = jid then map_option (\<lambda>_. b) (status_of d k) else status_of d k)"
  shows "job_moves d d'"
  unfolding job_moves_def
proof
  fix k
  show "case status_of d k of
          None \<Rightarrow> status_of d' k = None \<or> status_of d' k = Some ''pending''
        | Some st \<Rightarrow> status_of d' k = Some st \<or> (\<exists>st'. status_of d' k = Some st' \<and> job_edge st st')"
  proof (cases "k = jid")
    case True
    then show ?thesis using assms by simp
  next
    case False
    then show ?thesis using assms(3) [of k] by (simp split: option.splits)
  qed
qed

lemma step_Claim:
  assumes "jobs_inv s"
  shows "jobs_inv (step T P (Claim ok) s) \<and>
         job_moves (db s) (db (step T P (Claim ok) s))"
proof (cases "sched s")
  case Sleeping
  then show ?thesis using assms by (simp add: job_moves_same)
next
  case (Claiming rows)
  show ?thesis
  proof (cases rows)
    case Nil
    have "jobs_inv (s\<lparr>sched := Sleeping\<rparr>)"
      using assms by (simp add: jobs_inv_def claimable_def dispatched_def)
    then show ?thesis using Claiming Nil by (simp add: job_moves_same)
  next
    case (Cons r rows')
    obtain jid subject body where r: "r = (jid, subject, body)"
      by (cases r) auto
    have cl: "claimable s = jid # map fst rows'"
      using Claiming Cons r by (simp add: claimable_def)
    have pend: "status_of (db s) jid = Some ''pending''"
      and rest: "\<forall>k \<in> set (map fst rows'). status_of (db s) k = Some ''pending''"
      and nin: "jid \<notin> set (map fst rows')" and dr: "distinct (map fst rows')"
      using assms unfolding jobs_inv_def cl by auto
    have run: "\<forall>k \<in> set (dispatched s). status_of (db s) k = Some ''running''"
      and dd: "distinct (dispatched s)" and wf: "jobs_wf (db s)"
      using assms unfolding jobs_inv_def by auto
    show ?thesis
    proof (cases ok)
      case False
      let ?s' = "s\<lparr>sched := Claiming rows'\<rparr>"
      have e: "step T P (Claim ok) s = ?s'"
        using False Claiming Cons r by simp
      have "jobs_inv ?s'"
        unfolding jobs_inv_def using rest dr run dd wf
        by (simp add: claimable_def dispatched_def)
      then show ?thesis unfolding e by (simp add: job_moves_same)
    next
      case True
      let ?d' = "fst (mark_running jid (db s))"
      let ?s' = "s\<lparr>db := ?d', dispatchers := dispatchers s @ [Enumerating jid subject body],
                   sched := Claiming rows'\<rparr>"
      have e: "step T P (Claim ok) s = ?s'"
        using True Claiming Cons r by simp
      have njid: "jid \<notin> set (dispatched s)"
        using run pend by auto
      have c': "claimable ?s' = map fst rows'" and d': "dispatched ?s' = dispatched s @ [jid]"
        by (simp_all add: claimable_def dispatched_def)
      have "jobs_inv ?s'"
        unfolding jobs_inv_def c' d'
        using rest dr run dd nin njid pend jobs_wf_mark_running [OF wf, of jid]
        by (auto simp: status_of_mark_running)
      moreover have "job_moves (db s) ?d'"
        using pend job_edge_claim by (rule job_moves_update) (rule status_of_mark_running)
      ultimately show ?thesis unfolding e by simp
    qed
  qed
qed

lemma step_Dispatch:
  assumes "jobs_inv s"
  shows "jobs_inv (step T P (Dispatch i sendID now ok) s) \<and>
         job_moves (db s) (db (step T P (Dispatch i sendID now ok) s))"
proof (cases "i < length (dispatchers s)")
  case False
  then show ?thesis using assms by (simp add: job_moves_same)
next
  case True
  let ?ds = "dispatchers s"
  let ?jid = "disp_job (?ds ! i)"
  obtain pc' d' q' where ds: "dispatch_step sendID now ok (?ds ! i) (db s) (taskQ s) = (pc', d', q')"
    by (cases "dispatch_step sendID now ok (?ds ! i) (db s) (taskQ s)") auto
  note sm = dispatch_step_jobs [OF ds]
  have run: "\<forall>k \<in> set (dispatched s). status_of (db s) k = Some ''running''"
    and dd: "distinct (dispatched s)" and wf: "jobs_wf (db s)"
    and pend: "\<forall>k \<in> set (claimable s). status_of (db s) k = Some ''pending''"
    and dc: "distinct (claimable s)"
    using assms unfolding jobs_inv_def by auto
  have "?jid \<in> set (dispatched s)"
    using True by (simp add: dispatched_def)
  with run have rj: "status_of (db s) ?jid = Some ''running''" by blast
  show ?thesis
  proof (cases pc')
    case (Some p)
    let ?s' = "s\<lparr>db := d', taskQ := q', dispatchers := ?ds[i := p]\<rparr>"
    have e: "step T P (Dispatch i sendID now ok) s = ?s'"
      using True ds Some by simp
    from sm Some have pj: "disp_job p = ?jid" and j: "jobs d' = jobs (db s)"
      by auto
    have ds': "dispatched ?s' = dispatched s"
      using True pj by (simp add: dispatched_def update_same_key)
    have "jobs_inv ?s'"
      using assms by (rule jobs_inv_same) (simp_all add: j claimable_def ds')
    then show ?thesis unfolding e using j by (simp add: job_moves_same)
  next
    case None
    let ?s' = "s\<lparr>db := d', taskQ := q', dispatchers := take i ?ds @ drop (Suc i) ?ds\<rparr>"
    have e: "step T P (Dispatch i sendID now ok) s = ?s'"
      using True ds None by simp
    have dist: "distinct (map disp_job ?ds)"
      using dd by (simp add: dispatched_def)
    have dd': "distinct (dispatched ?s')"
      using remove_nth_distinct(1) [OF True dist] by (simp add: dispatched_def)
    have ne: "\<forall>k \<in> set (dispatched ?s'). k \<noteq> ?jid"
      using remove_nth_distinct(2) [OF True dist] by (auto simp: dispatched_def)
    have sub: "set (dispatched ?s') \<subseteq> set (dispatched s)"
      using remove_nth_subset [of i ?ds] by (auto simp: dispatched_def)
    have c: "claimable ?s' = claimable s"
      by (simp add: claimable_def)
    from sm None have "d' = db s \<or>
        (\<exists>st. terminal_job_status st \<and> d' = set_job_status st now ?jid (db s))"
      by simp
    then show ?thesis
    proof
      assume same: "d' = db s"
      have run': "\<forall>k \<in> set (dispatched ?s'). status_of d' k = Some ''running''"
        using sub run same by auto
      have "jobs_inv ?s'"
        unfolding jobs_inv_def c using wf dc pend dd' run' same by simp
      moreover have "job_moves (db s) d'"
        using same by (simp add: job_moves_same)
      ultimately show ?thesis unfolding e by simp
    next
      assume "\<exists>st. terminal_job_status st \<and> d' = set_job_status st now ?jid (db s)"
      then obtain st where st: "terminal_job_status st"
        and d': "d' = set_job_status st now ?jid (db s)"
        by auto
    have so: "status_of d' k = (if k = ?jid then map_option (\<lambda>_. st) (status_of (db s) k)
                                else status_of (db s) k)" for k
      unfolding d' by (rule status_of_set_job_status)
    have run': "\<forall>k \<in> set (dispatched ?s'). status_of d' k = Some ''running''"
      using ne sub run by (auto simp: so)
    have pend': "\<forall>k \<in> set (claimable s). status_of d' k = Some ''pending''"
      using pend rj by (auto simp: so)
    have wf': "jobs_wf d'"
      unfolding d' using wf terminal_valid [OF st] by (rule jobs_wf_set_job_status)
    have "jobs_inv ?s'"
      unfolding jobs_inv_def c using wf' dc pend' dd' run' by simp
    moreover have "job_moves (db s) d'"
      using rj job_edge_finish [OF st] by (rule job_moves_update) (rule so)
    ultimately show ?thesis unfolding e by simp
    qed
  qed
qed

lemma step_jobs_inv:
  assumes "jobs_inv s"
  shows "jobs_inv (step T P ev s) \<and> job_moves (db s) (db (step T P ev s))"
proof (cases ev)
  case (Schedule dec n1 new_id n2 ok)
  show ?thesis unfolding Schedule using assms by (rule step_Schedule)
next
  case (Subscribe sid email now ok)
  show ?thesis unfolding Subscribe using assms by (rule step_Subscribe)
next
  case (Tick now ok)
  show ?thesis unfolding Tick using assms by (rule step_Tick)
next
  case (Claim ok)
  show ?thesis unfolding Claim using assms by (rule step_Claim)
next
  case (Dispatch i sendID now ok)
  show ?thesis unfolding Dispatch using assms by (rule step_Dispatch)
next
  case (Work i now ok err)
  show ?thesis unfolding Work using assms by (rule step_Work)
qed

lemma exec_jobs_inv: "jobs_inv s \<Longrightarrow> jobs_inv (exec T P evs s)"
  by (induction evs arbitrary: s) (simp_all add: step_jobs_inv)

lemma start_jobs_inv: "jobs_wf d \<Longrightarrow> jobs_inv (start d)"
  by (simp add: jobs_inv_def start_def claimable_def dispatched_def)

lemma terminal_no_edge: "terminal_job_status st \<Longrightarrow> \<not> job_edge st st'"
  by (auto simp: terminal_job_status_def job_edge_def)

text \<open>
  Claim C4, as amended. Started on a store whose job ids are distinct and whose job
  statuses are among the five, the system keeps both properties in every state it
  reaches; in every such state, whatever happens next, a job keeps its status or moves
  along an edge of \<open>pending \<rightarrow> running \<rightarrow> {completed, completed_with_errors, failed}\<close>,
  and a job that is completed, completed with errors or failed keeps its status.
\<close>

theorem job_status_machine:
  assumes "jobs_wf d"
  shows "jobs_wf (db (exec T P evs (start d))) \<and>
    (\<forall>k st. status_of (db (exec T P evs (start d))) k = Some st \<longrightarrow>
       valid_job_status st \<and>
       (\<exists>st'. status_of (db (step T P ev (exec T P evs (start d)))) k = Some st' \<and>
              (st' = st \<or> job_edge st st') \<and>
              (terminal_job_status st \<longrightarrow> st' = st)))"
proof -
  let ?s = "exec T P evs (start d)"
  have inv: "jobs_inv ?s"
    using assms by (intro exec_jobs_inv start_jobs_inv)
  then have wf: "jobs_wf (db ?s)"
    by (simp add: jobs_inv_def)
  have mv: "job_moves (db ?s) (db (step T P ev ?s))"
    using step_jobs_inv [OF inv] by simp
  have "valid_job_status st \<and>
       (\<exists>st'. status_of (db (step T P ev ?s)) k = Some st' \<and>
              (st' = st \<or> job_edge st st') \<and>
              (terminal_job_status st \<longrightarrow> st' = st))"
    if k: "status_of (db ?s) k = Some st" for k st
  proof
    from status_of_in_jobs [OF k] wf show "valid_job_status st"
      by (auto simp: jobs_wf_def)
    from mv have "case status_of (db ?s) k of
          None \<Rightarrow> status_of (db (step T P ev ?s)) k = None \<or>
                  status_of (db (step T P ev ?s)) k = Some ''pending''
        | Some st \<Rightarrow> status_of (db (step T P ev ?s)) k = Some st \<or>
            (\<exists>st'. status_of (db (step T P ev ?s)) k = Some st' \<and> job_edge st st')"
      unfolding job_moves_def by (rule spec)
    with k have "status_of (db (step T P ev ?s)) k = Some st \<or>
        (\<exists>st'. status_of (db (step T P ev ?s)) k = Some st' \<and> job_edge st st')"
      by simp
    then show "\<exists>st'. status_of (db (step T P ev ?s)) k = Some st' \<and>
              (st' = st \<or> job_edge st st') \<and>
              (terminal_job_status st \<longrightarrow> st' = st)"
      using terminal_no_edge [of st] by blast
  qed
  with wf show ?thesis by blast
qed

theorem job_status_machine_witness:
  "jobs_wf ex_store \<and>
   status_of (db (exec ex_TrimSpace ex_ParseRFC3339 [Tick 100 True] (start ex_store))) ''j1'' =
     Some ''pending'' \<and>
   status_of (db (step ex_TrimSpace ex_ParseRFC3339 (Claim True)
     (exec ex_TrimSpace ex_ParseRFC3339 [Tick 100 True] (start ex_store)))) ''j1'' =
     Some ''running'' \<and>
   job_edge ''pending'' ''running''"
  using job_status_machine [of ex_store ex_TrimSpace ex_ParseRFC3339 "[Tick 100 True]" "Claim True"]
  by (simp add: jobs_wf_def valid_job_status_def ex_store_def ex_job_def start_def status_of_def
      select_due_def mark_running_def job_edge_def)

text \<open>
  Claim C4 as stated fails: \<open>running\<close> is one of the four statuses on the right of
  \<open>pending\<close>, and the dispatcher takes a job out of it. Here the job is claimed and
  then dispatched with no subscriber.
\<close>

theorem running_is_left:
  "status_of (db (exec ex_TrimSpace ex_ParseRFC3339 [Tick 100 True, Claim True] (start ex_store)))
     ''j1'' = Some ''running'' \<and>
   status_of (db (exec ex_TrimSpace ex_ParseRFC3339
     [Tick 100 True, Claim True, Dispatch 0 ''s1'' 110 True, Dispatch 0 ''s1'' 110 True,
      Dispatch 0 ''s1'' 110 True, Dispatch 0 ''s1'' 110 True, Dispatch 0 ''s1'' 110 True,
      Dispatch 0 ''s1'' 110 True] (start ex_store))) ''j1'' = Some ''completed''"
  by (simp add: ex_store_def ex_job_def start_def status_of_def select_due_def mark_running_def
      select_subscribers_def count_remaining_def count_failed_def set_job_status_def
      discarded_def)


lemma dispatch_step_sends:
  assumes "dispatch_step sendID now ok pc d q = (pc', d', q')"
  shows "(sends d' = sends d \<and>
          mset (case pc' of None \<Rightarrow> [] | Some p \<Rightarrow> disp_tasks p) + mset q' =
            mset (disp_tasks pc) + mset q) \<or>
         (\<exists>x t. sends d' = sends d @ [x] \<and> send_id x \<notin> set (map send_id (sends d)) \<and>
            send_status x = ''queued'' \<and> SendID t = send_id x \<and> q' = q \<and>
            mset (case pc' of None \<Rightarrow> [] | Some p \<Rightarrow> disp_tasks p) =
              add_mset t (mset (disp_tasks pc)))"
  using assms
proof (induction sendID now ok pc d q rule: dispatch_step.induct)
  case (4 sendID now ok jid subject body sid email rows tasks d q)
  show ?case
  proof (cases "insert_send ok sendID jid sid email now d")
    case None
    with 4 show ?thesis by auto
  next
    case (Some d1)
    then have "sends d1 = sends d @
        [\<lparr>send_id = sendID, send_job_id = jid, send_subscriber_id = sid, send_email = email,
          send_status = ''queued'', send_attempts = SqlInteger 0, send_last_error = None,
          send_created_at = now, send_sent_at = None\<rparr>]"
      and "sendID \<notin> set (map send_id (sends d))"
      by (auto simp: insert_send_def split: if_splits)
    with 4 Some show ?thesis
      by (intro disjI2 exI [of _ "\<lparr>send_id = sendID, send_job_id = jid, send_subscriber_id = sid,
          send_email = email, send_status = ''queued'', send_attempts = SqlInteger 0,
          send_last_error = None, send_created_at = now, send_sent_at = None\<rparr>"]
          exI [of _ "\<lparr>SendID = sendID, JobID = jid, Email = email, Subject = subject, Body = body\<rparr>"])
        auto
  qed
qed (auto simp: set_job_status_def discarded_def split: if_splits)

lemma work_step_cases:
  assumes "work_step now ok err pc d q = (pc', d', q')"
  shows "(d' = d \<and> mset (worker_held pc') + mset (map SendID q') =
                    mset (worker_held pc) + mset (map SendID q)) \<or>
         (\<exists>t. pc = Marking t \<and> pc' = Sending t \<and> q' = q \<and> d' = mark_sending (SendID t) d) \<or>
         (\<exists>t. pc = Sending t \<and> pc' = Idle \<and> q' = q \<and>
              (d' = d \<or> d' = mark_sent now (SendID t) d \<or> (\<exists>e. d' = mark_failed e (SendID t) d)))"
  using assms
  by (induction now ok err pc d q rule: work_step.induct)
    (auto simp: worker_begin_def worker_end_def discarded_def split: option.splits if_splits)

lemma mset_concat_nth:
  assumes "i < length xs"
  shows "mset (concat (map f xs)) =
         mset (f (xs ! i)) + mset (concat (map f (take i xs @ drop (Suc i) xs)))"
proof -
  have a: "xs = take i xs @ xs ! i # drop (Suc i) xs"
    using assms by (rule id_take_nth_drop)
  have "mset (concat (map f xs)) =
      mset (concat (map f (take i xs))) + mset (f (xs ! i)) + mset (concat (map f (drop (Suc i) xs)))"
    by (subst a) simp
  then show ?thesis by simp
qed

lemma mset_concat_upd:
  assumes "i < length xs"
  shows "mset (concat (map f (xs[i := y]))) =
         mset (f y) + mset (concat (map f (take i xs @ drop (Suc i) xs)))"
proof -
  have b: "xs[i := y] = take i xs @ y # drop (Suc i) xs"
    using assms by (rule upd_conv_take_nth_drop)
  show ?thesis by (subst b) simp
qed

lemma mset_held:
  "mset (held s) =
     image_mset SendID (mset (concat (map disp_tasks (dispatchers s))) + mset (taskQ s)) +
     mset (concat (map worker_held (workers s)))"
  by (simp add: held_def)

lemma sends_moves_same:
  "sends (db s') = sends (db s) \<Longrightarrow> dispatchers s' = dispatchers s \<Longrightarrow> taskQ s' = taskQ s \<Longrightarrow>
   workers s' = workers s \<Longrightarrow> sends_moves s s'"
  by (simp add: sends_moves_def held_def)

lemma sends_moves_held:
  "sends (db s') = sends (db s) \<Longrightarrow> mset (held s') = mset (held s) \<Longrightarrow> sends_moves s s'"
  by (simp add: sends_moves_def)

lemma schedule_sends: "sends (snd (scheduleJobHandler T P dec n1 new_id n2 ok d)) = sends d"
  by (auto simp: scheduleJobHandler_def insert_job_def Let_def split: option.splits)

lemma subscribe_sends: "insert_subscriber ok sid email now d = Some d' \<Longrightarrow> sends d' = sends d"
  by (auto simp: insert_subscriber_def split: if_splits)

lemma mark_running_sends: "sends (fst (mark_running jid d)) = sends d"
  by (simp add: mark_running_def)

lemma moves_Schedule: "sends_moves s (step T P (Schedule dec n1 new_id n2 ok) s)"
  by (rule sends_moves_same) (simp_all add: schedule_sends)

lemma moves_Subscribe: "sends_moves s (step T P (Subscribe sid email now ok) s)"
proof (cases "insert_subscriber ok sid email now (db s)")
  case None
  then show ?thesis by (simp add: sends_moves_same)
next
  case (Some d')
  then show ?thesis using subscribe_sends [OF Some] by (simp add: sends_moves_same)
qed

lemma moves_Tick: "sends_moves s (step T P (Tick now ok) s)"
  by (cases "sched s") (simp_all add: sends_moves_same)

lemma moves_Claim: "sends_moves s (step T P (Claim ok) s)"
proof (cases "sched s")
  case Sleeping
  then show ?thesis by (simp add: sends_moves_same)
next
  case (Claiming rows)
  show ?thesis
  proof (cases rows)
    case Nil
    with Claiming show ?thesis by (simp add: sends_moves_same)
  next
    case (Cons r rows')
    obtain jid subject body where r: "r = (jid, subject, body)"
      by (cases r) auto
    show ?thesis
    proof (cases ok)
      case False
      with Claiming Cons r show ?thesis by (simp add: sends_moves_same)
    next
      case True
      with Claiming Cons r show ?thesis
        by (intro sends_moves_held) (simp_all add: held_def mark_running_sends)
    qed
  qed
qed

lemma moves_Dispatch: "sends_moves s (step T P (Dispatch i sendID now ok) s)"
proof (cases "i < length (dispatchers s)")
  case False
  then show ?thesis by (simp add: sends_moves_same)
next
  case True
  let ?ds = "dispatchers s"
  let ?R = "mset (concat (map disp_tasks (take i ?ds @ drop (Suc i) ?ds)))"
  let ?W = "mset (concat (map worker_held (workers s)))"
  obtain pc' d' q' where ds: "dispatch_step sendID now ok (?ds ! i) (db s) (taskQ s) = (pc', d', q')"
    by (cases "dispatch_step sendID now ok (?ds ! i) (db s) (taskQ s)") auto
  have D: "mset (concat (map disp_tasks ?ds)) = mset (disp_tasks (?ds ! i)) + ?R"
    using True by (rule mset_concat_nth)
  have h: "mset (held s) =
      image_mset SendID (mset (disp_tasks (?ds ! i)) + mset (taskQ s) + ?R) + ?W"
    unfolding mset_held D by (simp add: ac_simps)
  show ?thesis
  proof (cases pc')
    case None
    let ?s' = "s\<lparr>db := d', taskQ := q', dispatchers := take i ?ds @ drop (Suc i) ?ds\<rparr>"
    have e: "step T P (Dispatch i sendID now ok) s = ?s'"
      using True ds None by simp
    from dispatch_step_sends [OF ds] None
    have sd: "sends d' = sends (db s)" and m: "mset q' = mset (disp_tasks (?ds ! i)) + mset (taskQ s)"
      by auto
    have "mset (held ?s') = image_mset SendID (mset q' + ?R) + ?W"
      unfolding mset_held by (simp add: ac_simps)
    then have "mset (held ?s') = mset (held s)"
      unfolding h m by simp
    then show ?thesis unfolding e using sd by (intro sends_moves_held) simp_all
  next
    case (Some p)
    let ?s' = "s\<lparr>db := d', taskQ := q', dispatchers := ?ds[i := p]\<rparr>"
    have e: "step T P (Dispatch i sendID now ok) s = ?s'"
      using True ds Some by simp
    have D': "mset (concat (map disp_tasks (?ds[i := p]))) = mset (disp_tasks p) + ?R"
      using True by (rule mset_concat_upd)
    have h': "mset (held ?s') = image_mset SendID (mset (disp_tasks p) + mset q' + ?R) + ?W"
      unfolding mset_held using D' by (simp add: ac_simps)
    from dispatch_step_sends [OF ds] Some
    consider (same) "sends d' = sends (db s)"
        "mset (disp_tasks p) + mset q' = mset (disp_tasks (?ds ! i)) + mset (taskQ s)"
      | (ins) x t where "sends d' = sends (db s) @ [x]"
        "send_id x \<notin> set (map send_id (sends (db s)))" "send_status x = ''queued''"
        "SendID t = send_id x" "q' = taskQ s"
        "mset (disp_tasks p) = add_mset t (mset (disp_tasks (?ds ! i)))"
      by auto
    then show ?thesis
    proof cases
      case same
      have "mset (held ?s') = mset (held s)"
        unfolding h h' same(2) ..
      then show ?thesis unfolding e using same(1) by (intro sends_moves_held) simp_all
    next
      case ins
      have "mset (held ?s') =
          image_mset SendID (mset (disp_tasks p) + mset q' + ?R) + ?W"
        by (rule h')
      also have "\<dots> = add_mset (SendID t)
          (image_mset SendID (mset (disp_tasks (?ds ! i)) + mset (taskQ s) + ?R) + ?W)"
        by (simp add: ins(5) ins(6))
      also have "\<dots> = add_mset (SendID t) (mset (held s))"
        by (simp only: h)
      finally have "mset (held ?s') = add_mset (SendID t) (mset (held s))" .
      then have m: "mset (held ?s') = add_mset (send_id x) (mset (held s))"
        using ins(4) by simp
      have "sends (db ?s') = sends (db s) @ [x] \<and>
          send_id x \<notin> set (map send_id (sends (db s))) \<and> send_status x = ''queued'' \<and>
          mset (held ?s') = add_mset (send_id x) (mset (held s))"
        using ins(1-3) m by simp
      then have "\<exists>x. sends (db ?s') = sends (db s) @ [x] \<and>
          send_id x \<notin> set (map send_id (sends (db s))) \<and> send_status x = ''queued'' \<and>
          mset (held ?s') = add_mset (send_id x) (mset (held s))"
        by (rule exI)
      then show ?thesis unfolding e sends_moves_def by (intro disjI2 disjI1)
    qed
  qed
qed

lemma moves_Work: "sends_moves s (step T P (Work i now ok err) s)"
proof (cases "i < length (workers s)")
  case False
  then show ?thesis by (simp add: sends_moves_same)
next
  case True
  let ?ws = "workers s"
  let ?R = "mset (concat (map worker_held (take i ?ws @ drop (Suc i) ?ws)))"
  let ?D = "image_mset SendID (mset (concat (map disp_tasks (dispatchers s))))"
  obtain pc' d' q' where ws: "work_step now ok err (?ws ! i) (db s) (taskQ s) = (pc', d', q')"
    by (cases "work_step now ok err (?ws ! i) (db s) (taskQ s)") auto
  let ?s' = "s\<lparr>db := d', taskQ := q', workers := ?ws[i := pc']\<rparr>"
  have e: "step T P (Work i now ok err) s = ?s'"
    using True ws by simp
  have W: "mset (concat (map worker_held ?ws)) = mset (worker_held (?ws ! i)) + ?R"
    using True by (rule mset_concat_nth)
  have W': "mset (concat (map worker_held (?ws[i := pc']))) = mset (worker_held pc') + ?R"
    using True by (rule mset_concat_upd)
  have h: "mset (held s) =
      ?D + (mset (worker_held (?ws ! i)) + mset (map SendID (taskQ s))) + ?R"
    unfolding mset_held W by (simp add: ac_simps)
  have h': "mset (held ?s') = ?D + (mset (worker_held pc') + mset (map SendID q')) + ?R"
    unfolding mset_held using W' by (simp add: ac_simps)
  from work_step_cases [OF ws]
  consider (same) "d' = db s"
      "mset (worker_held pc') + mset (map SendID q') =
       mset (worker_held (?ws ! i)) + mset (map SendID (taskQ s))"
    | (mark) t where "?ws ! i = Marking t" "pc' = Sending t" "q' = taskQ s"
        "d' = mark_sending (SendID t) (db s)"
    | (fin) t where "?ws ! i = Sending t" "pc' = Idle" "q' = taskQ s"
        "d' = db s \<or> d' = mark_sent now (SendID t) (db s) \<or>
         (\<exists>e. d' = mark_failed e (SendID t) (db s))"
    by blast
  then show ?thesis
  proof cases
    case same
    have "mset (held ?s') = mset (held s)"
      unfolding h h' same(2) ..
    then show ?thesis unfolding e using same(1) by (intro sends_moves_held) simp_all
  next
    case mark
    have "mset (held ?s') = ?D + (mset (worker_held pc') + mset (map SendID q')) + ?R"
      by (rule h')
    also have "\<dots> = ?D + (mset (worker_held (?ws ! i)) + mset (map SendID (taskQ s))) + ?R"
      by (simp add: mark(1) mark(2) mark(3))
    also have "\<dots> = mset (held s)"
      by (simp only: h)
    finally have m: "mset (held ?s') = mset (held s)" .
    have "SendID t \<in># mset (held s)"
      unfolding h mark(1) by simp
    then have i: "SendID t \<in> set (held s)" by simp
    have "SendID t \<in> set (held s) \<and> mset (held ?s') = mset (held s) \<and>
        sends (db ?s') = sends (mark_sending (SendID t) (db s))"
      using i m mark(4) by simp
    then have "\<exists>sid. sid \<in> set (held s) \<and> mset (held ?s') = mset (held s) \<and>
        sends (db ?s') = sends (mark_sending sid (db s))"
      by (rule exI)
    then show ?thesis unfolding e sends_moves_def by (intro disjI2 disjI1)
  next
    case fin
    have "mset (held ?s') = ?D + (mset (worker_held pc') + mset (map SendID q')) + ?R"
      by (rule h')
    also have "\<dots> = ?D + mset (map SendID (taskQ s)) + ?R"
      by (simp add: fin(2) fin(3))
    finally have "add_mset (SendID t) (mset (held ?s')) =
        ?D + (mset (worker_held (?ws ! i)) + mset (map SendID (taskQ s))) + ?R"
      by (simp add: fin(1))
    then have m: "mset (held s) = add_mset (SendID t) (mset (held ?s'))"
      by (simp only: h)
    from fin(4) consider (refused) "d' = db s"
      | (applied) "d' = mark_sent now (SendID t) (db s) \<or>
         (\<exists>e. d' = mark_failed e (SendID t) (db s))"
      by blast
    then show ?thesis
    proof cases
      case refused
      then have "sends (db ?s') = sends (db s) \<and>
          mset (held s) = add_mset (SendID t) (mset (held ?s'))"
        using m by simp
      then have "\<exists>sid. sends (db ?s') = sends (db s) \<and>
          mset (held s) = add_mset sid (mset (held ?s'))"
        by (rule exI)
      then show ?thesis unfolding e sends_moves_def by (intro disjI2 disjI1)
    next
      case applied
      then obtain e0 where "sends (db ?s') = sends (mark_sent now (SendID t) (db s)) \<or>
          sends (db ?s') = sends (mark_failed e0 (SendID t) (db s))"
        by auto
      with m have "mset (held s) = add_mset (SendID t) (mset (held ?s')) \<and>
          (sends (db ?s') = sends (mark_sent now (SendID t) (db s)) \<or>
           sends (db ?s') = sends (mark_failed e0 (SendID t) (db s)))"
        by simp
      then have "\<exists>sid now e. mset (held s) = add_mset sid (mset (held ?s')) \<and>
          (sends (db ?s') = sends (mark_sent now sid (db s)) \<or>
           sends (db ?s') = sends (mark_failed e sid (db s)))"
        by blast
      then show ?thesis unfolding e sends_moves_def by (intro disjI2)
    qed
  qed
qed

lemma step_sends_moves: "sends_moves s (step T P ev s)"
proof (cases ev)
  case (Schedule dec n1 new_id n2 ok)
  show ?thesis unfolding Schedule by (rule moves_Schedule)
next
  case (Subscribe sid email now ok)
  show ?thesis unfolding Subscribe by (rule moves_Subscribe)
next
  case (Tick now ok)
  show ?thesis unfolding Tick by (rule moves_Tick)
next
  case (Claim ok)
  show ?thesis unfolding Claim by (rule moves_Claim)
next
  case (Dispatch i sendID now ok)
  show ?thesis unfolding Dispatch by (rule moves_Dispatch)
next
  case (Work i now ok err)
  show ?thesis unfolding Work by (rule moves_Work)
qed

lemma distinct_add_mset:
  assumes "distinct xs" and "mset xs = add_mset a M"
  shows "a \<notin># M"
proof -
  obtain ys where ys: "M = mset ys"
    using ex_mset [of M] by blast
  with assms(2) have "mset xs = mset (a # ys)" by simp
  then have "distinct (a # ys)"
    using assms(1) by (metis mset_eq_imp_distinct_iff)
  then show ?thesis using ys by simp
qed

lemma update_rows:
  assumes "S' = map (\<lambda>x. if send_id x = sid then f x else x) S"
    and "\<And>x. send_id (f x) = send_id x"
  shows "x \<in> set S \<Longrightarrow> send_id x \<noteq> sid \<Longrightarrow> x \<in> set S'"
    and "y \<in> set S' \<Longrightarrow> send_id y \<noteq> sid \<Longrightarrow> y \<in> set S"
    and "y \<in> set S' \<Longrightarrow> send_id y = sid \<Longrightarrow> \<exists>y0 \<in> set S. y = f y0"
    and "set (map send_id S') = set (map send_id S)"
proof -
  let ?g = "\<lambda>x. if send_id x = sid then f x else x"
  have g: "send_id (?g x) = send_id x" for x
    using assms(2) by simp
  show "x \<in> set S \<Longrightarrow> send_id x \<noteq> sid \<Longrightarrow> x \<in> set S'"
  proof -
    assume "x \<in> set S" "send_id x \<noteq> sid"
    then have "?g x = x" "?g x \<in> ?g ` set S" by auto
    then show "x \<in> set S'" unfolding assms(1) set_map by simp
  qed
  {
    assume "y \<in> set S'"
    then obtain y0 where y0: "y0 \<in> set S" "y = ?g y0"
      unfolding assms(1) set_map by blast
    {
      assume "send_id y \<noteq> sid"
      with y0 g [of y0] have "y = y0" by (auto split: if_splits)
      with y0 show "y \<in> set S" by simp
    }
    {
      assume "send_id y = sid"
      with y0 g [of y0] have "y = f y0" by (auto split: if_splits)
      with y0 show "\<exists>y0 \<in> set S. y = f y0" by blast
    }
  }
  have "map send_id S' = map send_id S"
    unfolding assms(1) using g by (induction S) auto
  then show "set (map send_id S') = set (map send_id S)" by simp
qed

lemma inv_update:
  assumes rows: "S' = map (\<lambda>x. if send_id x = sid then f x else x) S"
    and idp: "\<And>x. send_id (f x) = send_id x"
    and iH: "\<forall>k \<in> set H. k \<in> set (map send_id S) \<and>
               (\<forall>x \<in> set S. send_id x = k \<longrightarrow> live_send x)"
    and sub: "set H' \<subseteq> set H"
    and old: "sid \<in> set H"
    and ok: "(\<forall>x. live_send (f x)) \<or> sid \<notin> set H'"
  shows "\<forall>k \<in> set H'. k \<in> set (map send_id S') \<and>
               (\<forall>x \<in> set S'. send_id x = k \<longrightarrow> live_send x)"
    and "\<forall>x \<in> set S. \<not> live_send x \<longrightarrow> x \<in> set S'"
proof -
  note u = update_rows [OF rows idp]
  show "\<forall>k \<in> set H'. k \<in> set (map send_id S') \<and>
               (\<forall>x \<in> set S'. send_id x = k \<longrightarrow> live_send x)"
  proof
    fix k assume k': "k \<in> set H'"
    with sub have k: "k \<in> set H" by blast
    with iH have ki: "k \<in> set (map send_id S)"
      and kl: "\<forall>x \<in> set S. send_id x = k \<longrightarrow> live_send x"
      by blast+
    have "live_send x" if x: "x \<in> set S'" "send_id x = k" for x
    proof (cases "k = sid")
      case True
      with k' ok have l: "\<forall>x. live_send (f x)" by blast
      from x True have "\<exists>y0 \<in> set S. x = f y0" by (intro u(3)) simp_all
      with l show ?thesis by blast
    next
      case False
      with x have "x \<in> set S" by (intro u(2)) simp_all
      with kl x(2) show ?thesis by blast
    qed
    with ki show "k \<in> set (map send_id S') \<and>
               (\<forall>x \<in> set S'. send_id x = k \<longrightarrow> live_send x)"
      unfolding u(4) by blast
  qed
  show "\<forall>x \<in> set S. \<not> live_send x \<longrightarrow> x \<in> set S'"
  proof (intro ballI impI)
    fix x assume x: "x \<in> set S" "\<not> live_send x"
    have "send_id x \<noteq> sid"
    proof
      assume "send_id x = sid"
      with iH old x(1) have "live_send x" by blast
      with x(2) show False by simp
    qed
    with x(1) show "x \<in> set S'" by (rule u(1))
  qed
qed

lemma mark_sending_rows:
  "sends (mark_sending sid d) =
     map (\<lambda>x. if send_id x = sid
               then (\<lambda>x. x\<lparr>send_status := ''sending'',
                           send_attempts := sql_succ (send_attempts x)\<rparr>) x
               else x) (sends d)"
  by (simp add: mark_sending_def)

lemma mark_sent_rows:
  "sends (mark_sent now sid d) =
     map (\<lambda>x. if send_id x = sid
               then (\<lambda>x. x\<lparr>send_status := ''sent'', send_sent_at := Some now\<rparr>) x
               else x) (sends d)"
  by (simp add: mark_sent_def)

lemma mark_failed_rows:
  "sends (mark_failed e sid d) =
     map (\<lambda>x. if send_id x = sid
               then (\<lambda>x. x\<lparr>send_status := ''failed'', send_last_error := Some e\<rparr>) x
               else x) (sends d)"
  by (simp add: mark_failed_def)

lemma terminal_not_live:
  "send_status x = ''sent'' \<or> send_status x = ''failed'' \<Longrightarrow> \<not> live_send x"
  by (auto simp: live_send_def)

lemma sends_inv_moves:
  assumes inv: "sends_inv s" and mv: "sends_moves s s'"
  shows "sends_inv s' \<and> (\<forall>x \<in> set (sends (db s)). \<not> live_send x \<longrightarrow> x \<in> set (sends (db s')))"
proof -
  let ?H = "held s" and ?H' = "held s'" and ?S = "sends (db s)" and ?S' = "sends (db s')"
  have dH: "distinct ?H"
    and iH: "\<forall>k \<in> set ?H. k \<in> set (map send_id ?S) \<and>
               (\<forall>x \<in> set ?S. send_id x = k \<longrightarrow> live_send x)"
    using inv by (simp_all add: sends_inv_def)
  from mv consider
    (same) "?S' = ?S" "mset ?H' = mset ?H"
    | (drop) sid where "?S' = ?S" "mset ?H = add_mset sid (mset ?H')"
    | (ins) x where "?S' = ?S @ [x]" "send_id x \<notin> set (map send_id ?S)"
        "send_status x = ''queued''" "mset ?H' = add_mset (send_id x) (mset ?H)"
    | (mark) sid where "sid \<in> set ?H" "mset ?H' = mset ?H"
        "?S' = sends (mark_sending sid (db s))"
    | (fin) sid f where "mset ?H = add_mset sid (mset ?H')"
        "?S' = map (\<lambda>x. if send_id x = sid then f x else x) ?S"
        "\<And>x. send_id (f x) = send_id x"
  proof -
    assume a: "\<lbrakk>?S' = ?S; mset ?H' = mset ?H\<rbrakk> \<Longrightarrow> thesis"
      "\<And>sid. \<lbrakk>?S' = ?S; mset ?H = add_mset sid (mset ?H')\<rbrakk> \<Longrightarrow> thesis"
      "\<And>x. \<lbrakk>?S' = ?S @ [x]; send_id x \<notin> set (map send_id ?S);
        send_status x = ''queued''; mset ?H' = add_mset (send_id x) (mset ?H)\<rbrakk> \<Longrightarrow> thesis"
      "\<And>sid. \<lbrakk>sid \<in> set ?H; mset ?H' = mset ?H;
        ?S' = sends (mark_sending sid (db s))\<rbrakk> \<Longrightarrow> thesis"
      "\<And>sid f. \<lbrakk>mset ?H = add_mset sid (mset ?H');
        ?S' = map (\<lambda>x. if send_id x = sid then f x else x) ?S;
        \<And>x. send_id (f x) = send_id x\<rbrakk> \<Longrightarrow> thesis"
    from mv [unfolded sends_moves_def] show thesis
    proof (elim disjE exE conjE)
      assume "?S' = ?S" "mset ?H' = mset ?H"
      then show thesis by (rule a(1))
    next
      fix sid assume "?S' = ?S" "mset ?H = add_mset sid (mset ?H')"
      then show thesis by (rule a(2))
    next
      fix x assume "?S' = ?S @ [x]" "send_id x \<notin> set (map send_id ?S)"
        "send_status x = ''queued''" "mset ?H' = add_mset (send_id x) (mset ?H)"
      then show thesis by (rule a(3))
    next
      fix sid assume "sid \<in> set ?H" "mset ?H' = mset ?H"
        "?S' = sends (mark_sending sid (db s))"
      then show thesis by (rule a(4))
    next
      fix sid now e
      assume h: "mset ?H = add_mset sid (mset ?H')"
        and "?S' = sends (mark_sent now sid (db s))"
      then show thesis
        by (intro a(5) [of sid "\<lambda>x. x\<lparr>send_status := ''sent'', send_sent_at := Some now\<rparr>"])
          (simp_all add: mark_sent_rows)
    next
      fix sid now e
      assume h: "mset ?H = add_mset sid (mset ?H')"
        and "?S' = sends (mark_failed e sid (db s))"
      then show thesis
        by (intro a(5) [of sid "\<lambda>x. x\<lparr>send_status := ''failed'', send_last_error := Some e\<rparr>"])
          (simp_all add: mark_failed_rows)
    qed
  qed
  then show ?thesis
  proof cases
    case same
    have "set ?H' = set ?H"
      using same(2) by (rule mset_eq_setD)
    moreover have "distinct ?H'"
      using same(2) dH by (metis mset_eq_imp_distinct_iff)
    ultimately have "sends_inv s'"
      using iH same(1) by (simp add: sends_inv_def)
    then show ?thesis using same(1) by simp
  next
    case drop
    have "mset ?H = mset (sid # ?H')"
      using drop(2) by simp
    then have "set ?H = set (sid # ?H')" and "distinct (sid # ?H')"
      using dH by (metis mset_eq_setD, metis mset_eq_imp_distinct_iff)
    then have "set ?H' \<subseteq> set ?H" and "distinct ?H'"
      by auto
    then have "sends_inv s'"
      using iH drop(1) unfolding sends_inv_def by (metis subsetD)
    then show ?thesis using drop(1) by simp
  next
    case ins
    have sH: "set ?H' = insert (send_id x) (set ?H)"
    proof -
      have "mset ?H' = mset (send_id x # ?H)"
        using ins(4) by simp
      then have "set ?H' = set (send_id x # ?H)"
        by (rule mset_eq_setD)
      then show ?thesis by simp
    qed
    have nin: "send_id x \<notin> set ?H"
      using iH ins(2) by blast
    have d': "distinct ?H'"
    proof -
      have "mset ?H' = mset (send_id x # ?H)"
        using ins(4) by simp
      moreover have "distinct (send_id x # ?H)"
        using dH nin by simp
      ultimately show ?thesis by (metis mset_eq_imp_distinct_iff)
    qed
    have "k \<in> set (map send_id ?S') \<and> (\<forall>y \<in> set ?S'. send_id y = k \<longrightarrow> live_send y)"
      if "k \<in> set ?H'" for k
    proof (cases "k = send_id x")
      case True
      have "live_send y" if "y \<in> set ?S'" "send_id y = send_id x" for y
      proof -
        from that(1) have "y \<in> set ?S \<or> y = x" unfolding ins(1) by auto
        moreover have "y \<notin> set ?S"
        proof
          assume "y \<in> set ?S"
          then have "send_id y \<in> set (map send_id ?S)" by simp
          with that(2) ins(2) show False by simp
        qed
        ultimately show ?thesis using ins(3) by (simp add: live_send_def)
      qed
      then show ?thesis using True ins(1) by simp
    next
      case False
      with that sH have hH: "k \<in> set ?H" by simp
      with iH have ki: "k \<in> set (map send_id ?S)"
        and kl: "\<forall>x \<in> set ?S. send_id x = k \<longrightarrow> live_send x"
        by blast+
      have "live_send y" if "y \<in> set ?S'" "send_id y = k" for y
      proof -
        from that(1) have "y \<in> set ?S \<or> y = x" unfolding ins(1) by auto
        with that(2) False have "y \<in> set ?S" by auto
        with kl that(2) show ?thesis by blast
      qed
      with ki show ?thesis unfolding ins(1) by auto
    qed
    then have "sends_inv s'"
      using d' by (simp add: sends_inv_def)
    moreover have "\<forall>y \<in> set ?S. y \<in> set ?S'"
      unfolding ins(1) by simp
    ultimately show ?thesis by blast
  next
    case mark
    have sH: "set ?H' = set ?H"
      using mark(2) by (rule mset_eq_setD)
    have d': "distinct ?H'"
      using mark(2) dH by (metis mset_eq_imp_distinct_iff)
    have sub: "set ?H' \<subseteq> set ?H"
      using sH by simp
    have l: "(\<forall>x. live_send (x\<lparr>send_status := ''sending'',
        send_attempts := sql_succ (send_attempts x)\<rparr>)) \<or> sid \<notin> set ?H'"
      by (simp add: live_send_def)
    note r = inv_update [OF mark(3) [unfolded mark_sending_rows] _ iH sub mark(1) l]
    have "sends_inv s'"
      unfolding sends_inv_def using d' r(1) by simp
    moreover have "\<forall>x \<in> set ?S. \<not> live_send x \<longrightarrow> x \<in> set ?S'"
      by (rule r(2)) simp_all
    ultimately show ?thesis by blast
  next
    case fin
    have e: "mset ?H = mset (sid # ?H')"
      using fin(1) by simp
    then have sH: "set ?H = set (sid # ?H')"
      by (rule mset_eq_setD)
    have dd: "distinct (sid # ?H')"
      using e dH by (metis mset_eq_imp_distinct_iff)
    then have d': "distinct ?H'" and n': "sid \<notin> set ?H'"
      by simp_all
    have sub: "set ?H' \<subseteq> set ?H" and old: "sid \<in> set ?H"
      using sH by auto
    have l: "(\<forall>x. live_send (f x)) \<or> sid \<notin> set ?H'"
      using n' by simp
    note r = inv_update [OF fin(2) fin(3) iH sub old l]
    have "sends_inv s'"
      unfolding sends_inv_def using d' r(1) by simp
    moreover have "\<forall>x \<in> set ?S. \<not> live_send x \<longrightarrow> x \<in> set ?S'"
      by (rule r(2))
    ultimately show ?thesis by blast
  qed
qed

lemma exec_sends_inv: "sends_inv s \<Longrightarrow> sends_inv (exec T P evs s)"
  by (induction evs arbitrary: s) (simp_all add: sends_inv_moves step_sends_moves)

lemma start_sends_inv: "sends_inv (start d)"
  by (simp add: sends_inv_def start_def held_def)

lemma terminal_kept:
  assumes "sends_inv s" and "x \<in> set (sends (db s))"
    and "send_status x = ''sent'' \<or> send_status x = ''failed''"
  shows "x \<in> set (sends (db (exec T P evs s)))"
  using assms
proof (induction evs arbitrary: s)
  case Nil
  then show ?case by simp
next
  case (Cons ev evs)
  have m: "sends_moves s (step T P ev s)"
    by (rule step_sends_moves)
  note r = sends_inv_moves [OF Cons.prems(1) m]
  from r have "sends_inv (step T P ev s)" ..
  moreover from r Cons.prems(2) terminal_not_live [OF Cons.prems(3)]
  have "x \<in> set (sends (db (step T P ev s)))"
    by blast
  ultimately have "x \<in> set (sends (db (exec T P evs (step T P ev s))))"
    using Cons.prems(3) by (rule Cons.IH)
  then show ?case by simp
qed

text \<open>
  Claim C7. In every state the system reaches, from any store, a send row whose status
  is \<open>sent\<close> or \<open>failed\<close> stays in the table as it is, whatever happens afterwards:
  no statement of the program changes it, and in particular none queues it again.
\<close>

theorem terminal_sends_absorbing:
  "\<forall>x \<in> set (sends (db (exec T P evs (start d)))).
     send_status x = ''sent'' \<or> send_status x = ''failed'' \<longrightarrow>
     x \<in> set (sends (db (exec T P evs' (exec T P evs (start d)))))"
proof (intro ballI impI)
  fix x
  assume "x \<in> set (sends (db (exec T P evs (start d))))"
    and "send_status x = ''sent'' \<or> send_status x = ''failed''"
  with exec_sends_inv [OF start_sends_inv]
  show "x \<in> set (sends (db (exec T P evs' (exec T P evs (start d)))))"
    by (rule terminal_kept)
qed

lemma ex_run_sends:
  "sends (db (exec ex_TrimSpace ex_ParseRFC3339 ex_run (start ex_sub_store))) = [ex_sent]"
  by (simp add: ex_run_def ex_sub_store_def ex_job_def ex_sent_def ex_send_def start_def
      workerCount_def taskQueueSize_def select_due_def mark_running_def select_subscribers_def
      insert_send_def worker_begin_def worker_end_def mark_sending_def mark_sent_def
      discarded_def sql_succ_def eval_nat_numeral)

theorem terminal_sends_absorbing_witness:
  "ex_sent \<in> set (sends (db (exec ex_TrimSpace ex_ParseRFC3339 ex_run (start ex_sub_store)))) \<and>
   send_status ex_sent = ''sent'' \<and>
   ex_sent \<in> set (sends (db (exec ex_TrimSpace ex_ParseRFC3339
     [Work 0 140 True (Some ''late''), Dispatch 0 ''s1'' 150 True, Dispatch 0 ''s1'' 150 True]
     (exec ex_TrimSpace ex_ParseRFC3339 ex_run (start ex_sub_store)))))"
proof -
  have a: "ex_sent \<in> set (sends (db (exec ex_TrimSpace ex_ParseRFC3339 ex_run (start ex_sub_store))))"
    by (simp add: ex_run_sends)
  have b: "send_status ex_sent = ''sent''"
    by (simp add: ex_sent_def)
  from terminal_sends_absorbing [of ex_TrimSpace ex_ParseRFC3339 ex_run ex_sub_store
      "[Work 0 140 True (Some ''late''), Dispatch 0 ''s1'' 150 True, Dispatch 0 ''s1'' 150 True]"] a b
  have "ex_sent \<in> set (sends (db (exec ex_TrimSpace ex_ParseRFC3339
     [Work 0 140 True (Some ''late''), Dispatch 0 ''s1'' 150 True, Dispatch 0 ''s1'' 150 True]
     (exec ex_TrimSpace ex_ParseRFC3339 ex_run (start ex_sub_store)))))"
    by blast
  with a b show ?thesis by (intro conjI)
qed




lemma job_send_ids_same: "sends d' = sends d \<Longrightarrow> job_send_ids jid d' = job_send_ids jid d"
  by (simp add: job_send_ids_def)











lemma exec_not_pending:
  assumes "jobs_inv s" and "status_of (db s) k = Some st" and "st \<noteq> ''pending''"
  shows "\<exists>st'. status_of (db (exec T P evs s)) k = Some st' \<and> st' \<noteq> ''pending''"
  using assms
proof (induction evs arbitrary: s st)
  case Nil
  then show ?case by simp
next
  case (Cons ev evs)
  let ?s' = "step T P ev s"
  note r = step_jobs_inv [OF Cons.prems(1), of T P ev]
  then have "case status_of (db s) k of
      None \<Rightarrow> status_of (db ?s') k = None \<or> status_of (db ?s') k = Some ''pending''
    | Some st \<Rightarrow> status_of (db ?s') k = Some st \<or>
        (\<exists>st'. status_of (db ?s') k = Some st' \<and> job_edge st st')"
    unfolding job_moves_def by blast
  with Cons.prems(2) have "status_of (db ?s') k = Some st \<or>
      (\<exists>st'. status_of (db ?s') k = Some st' \<and> job_edge st st')"
    by simp
  then obtain st' where st': "status_of (db ?s') k = Some st'" "st' \<noteq> ''pending''"
    using Cons.prems(3) by (auto simp: job_edge_def terminal_job_status_def)
  from r have "jobs_inv ?s'" ..
  from Cons.IH [OF this st'] show ?case by simp
qed

text \<open>
  Claim C1, as amended. The claim of a job is one update keyed on the job id alone:
  executed again it affects as many rows as the first time, and every row with that id
  is \<open>running\<close> afterwards whatever its status was. The tick issues it only for the
  rows its query returned, so every job it dispatches was pending and due in the store
  the tick started from, and a later query no longer returns a job the tick has
  dispatched. In the running system, with its one scheduler, a job becomes \<open>running\<close>
  from \<open>pending\<close> only, and a job that has left \<open>pending\<close> is never pending again: it
  becomes \<open>running\<close> at most once.
\<close>

theorem claim_keyed_on_id:
  "snd (mark_running jid (fst (mark_running jid d))) = snd (mark_running jid d) \<and>
   (\<forall>j \<in> set (jobs (fst (mark_running jid d))). job_id j = jid \<longrightarrow> job_status j = ''running'') \<and>
   (\<forall>r \<in> set (snd (enqueueDueJobs now query_ok failing d)).
      (\<exists>j \<in> set (jobs d). job_id j = fst r \<and> job_status j = ''pending'' \<and> job_scheduled_at j \<le> now) \<and>
      fst r \<notin> fst ` set (select_due now' (fst (enqueueDueJobs now query_ok failing d)))) \<and>
   (jobs_wf d0 \<and> status_of (db (exec T P evs (start d0))) k = Some st \<and>
    status_of (db (step T P ev (exec T P evs (start d0)))) k = Some ''running'' \<longrightarrow>
      st = ''pending'' \<or> st = ''running'') \<and>
   (jobs_wf d0 \<and> status_of (db (exec T P evs (start d0))) k = Some st \<and> st \<noteq> ''pending'' \<longrightarrow>
      (\<exists>st'. status_of (db (exec T P evs' (exec T P evs (start d0)))) k = Some st' \<and>
             st' \<noteq> ''pending''))"
proof -
  let ?s = "exec T P evs (start d0)"
  have a: "jobs_wf d0 \<and> status_of (db ?s) k = Some st \<and>
      status_of (db (step T P ev ?s)) k = Some ''running'' \<longrightarrow>
      st = ''pending'' \<or> st = ''running''"
  proof
    assume h: "jobs_wf d0 \<and> status_of (db ?s) k = Some st \<and>
      status_of (db (step T P ev ?s)) k = Some ''running''"
    then have "jobs_inv ?s"
      by (intro exec_jobs_inv start_jobs_inv) simp
    from step_jobs_inv [OF this, of T P ev]
    have "case status_of (db ?s) k of
        None \<Rightarrow> status_of (db (step T P ev ?s)) k = None \<or>
                status_of (db (step T P ev ?s)) k = Some ''pending''
      | Some st \<Rightarrow> status_of (db (step T P ev ?s)) k = Some st \<or>
          (\<exists>st'. status_of (db (step T P ev ?s)) k = Some st' \<and> job_edge st st')"
      unfolding job_moves_def by blast
    with h show "st = ''pending'' \<or> st = ''running''"
      by (auto simp: job_edge_def terminal_job_status_def)
  qed
  have b: "jobs_wf d0 \<and> status_of (db ?s) k = Some st \<and> st \<noteq> ''pending'' \<longrightarrow>
      (\<exists>st'. status_of (db (exec T P evs' ?s)) k = Some st' \<and> st' \<noteq> ''pending'')"
  proof
    assume h: "jobs_wf d0 \<and> status_of (db ?s) k = Some st \<and> st \<noteq> ''pending''"
    then have i: "jobs_inv ?s"
      by (intro exec_jobs_inv start_jobs_inv) simp
    from h have 1: "status_of (db ?s) k = Some st" and 2: "st \<noteq> ''pending''"
      by simp_all
    from i 1 2 show "\<exists>st'. status_of (db (exec T P evs' ?s)) k = Some st' \<and> st' \<noteq> ''pending''"
      by (rule exec_not_pending)
  qed
  from claim_update_facts [of jid d now query_ok failing now'] a b show ?thesis
    by (intro conjI) simp_all
qed

theorem claim_keyed_on_id_witness:
  "snd (mark_running ''j1'' (fst (mark_running ''j1'' ex_store))) = snd (mark_running ''j1'' ex_store) \<and>
   ex_running \<in> set (jobs (fst (mark_running ''j1'' ex_store))) \<and> job_status ex_running = ''running'' \<and>
   (''j1'', ''hello'', ''text'') \<in> set (snd (enqueueDueJobs 100 True [] ex_store)) \<and>
   ex_job \<in> set (jobs ex_store) \<and> job_status ex_job = ''pending'' \<and> job_scheduled_at ex_job \<le> 100 \<and>
   ''j1'' \<notin> fst ` set (select_due 300 (fst (enqueueDueJobs 100 True [] ex_store))) \<and>
   jobs_wf ex_store \<and>
   status_of (db (exec ex_TrimSpace ex_ParseRFC3339 [Tick 100 True] (start ex_store))) ''j1'' =
     Some ''pending'' \<and>
   status_of (db (step ex_TrimSpace ex_ParseRFC3339 (Claim True)
     (exec ex_TrimSpace ex_ParseRFC3339 [Tick 100 True] (start ex_store)))) ''j1'' =
     Some ''running'' \<and>
   status_of (db (exec ex_TrimSpace ex_ParseRFC3339 [Tick 100 True, Claim True] (start ex_store)))
     ''j1'' = Some ''running'' \<and>
   status_of (db (exec ex_TrimSpace ex_ParseRFC3339 [Tick 200 True, Claim True]
     (exec ex_TrimSpace ex_ParseRFC3339 [Tick 100 True, Claim True] (start ex_store)))) ''j1'' =
     Some ''running''"
  using claim_keyed_on_id [of "''j1''" ex_store 100 True "[]" 300 ex_store ex_TrimSpace
      ex_ParseRFC3339 "[Tick 100 True]" "''j1''" "''pending''" "Claim True" "[]"]
    claim_keyed_on_id [of "''j1''" ex_store 100 True "[]" 300 ex_store ex_TrimSpace
      ex_ParseRFC3339 "[Tick 100 True, Claim True]" "''j1''" "''running''" "Claim True"
      "[Tick 200 True, Claim True]"]
  by (simp add: ex_store_def ex_running_def ex_job_def mark_running_def enqueueDueJobs_def
      select_due_def jobs_wf_def valid_job_status_def start_def status_of_def)


end
